theory Spec2Isabelle
  imports Complex_Main
begin

section \<open>JavaScript numbers\<close>

text \<open>
  The handlers of \<^verbatim>\<open>server.js\<close> compute on JavaScript numbers, which are IEEE 754
  binary64 values. A number is modelled as not-a-number, a signed infinity, or a signed
  finite magnitude: \<open>Fin s q\<close> is the double of sign \<open>s\<close> (\<open>True\<close> for negative)
  and magnitude \<open>q\<close>, a non-negative rational that binary64 represents exactly;
  \<open>Fin True 0\<close> is the negative zero. Every operation computes the exact rational result
  and rounds it to the nearest double, ties to the even significand, as the hardware does.
\<close>

datatype jsnum = NaN | Infinity bool | Fin bool rat

function ipow :: "rat \<Rightarrow> int \<Rightarrow> rat" where
  "ipow b e = (if e \<le> 0 then 1
               else if e mod 2 = 0 then ipow (b * b) (e div 2)
               else b * ipow (b * b) (e div 2))"
  by pat_completeness auto
termination
  by (relation "measure (\<lambda>(b, e). nat e)") auto

declare ipow.simps [simp del]

definition zpow :: "rat \<Rightarrow> int \<Rightarrow> rat" where
  \<comment> \<open>\<open>b\<close> to an integer power, negative powers included\<close>
  "zpow b e = (if 0 \<le> e then ipow b e else 1 / ipow b (- e))"

function numlen :: "int \<Rightarrow> int \<Rightarrow> int" where
  \<comment> \<open>the number of base-\<open>b\<close> digits of a positive integer\<close>
  "numlen b n = (if n \<le> 0 \<or> b < 2 then 0 else 1 + numlen b (n div b))"
  by pat_completeness auto
termination
proof (relation "measure (\<lambda>(b, n). nat n)")
  show "wf (measure (\<lambda>(b, n). nat n))" by simp
next
  fix b n :: int
  assume "\<not> (n \<le> 0 \<or> b < 2)"
  then have "0 < n" and "1 < b" by auto
  then have "n div b < n" by (rule int_div_less_self)
  with \<open>0 < n\<close> show "((b, n div b), (b, n)) \<in> measure (\<lambda>(b, n). nat n)"
    by (simp add: pos_imp_zdiv_nonneg_iff)
qed

declare numlen.simps [simp del]

definition ilog :: "int \<Rightarrow> rat \<Rightarrow> int" where
  \<comment> \<open>the integer \<open>e\<close> with \<open>b ^ e \<le> q < b ^ (e + 1)\<close>, for a positive \<open>q\<close>\<close>
  "ilog b q =
     (let (n, d) = quotient_of q; e = numlen b n - numlen b d
      in if zpow (of_int b) e \<le> q then e else e - 1)"

definition round_half_even :: "rat \<Rightarrow> int" where
  "round_half_even q =
     (let f = \<lfloor>q\<rfloor>; d = q - of_int f
      in if d < 1 / 2 then f else if 1 / 2 < d then f + 1
         else if even f then f else f + 1)"

definition round64 :: "bool \<Rightarrow> rat \<Rightarrow> jsnum" where
  \<comment> \<open>the double nearest to the magnitude \<open>q\<close>, with sign \<open>s\<close>: \<open>n\<close> is the
      significand of 53 bits at the exponent \<open>e\<close>, which is at least \<open>-1022\<close> (below
      it the spacing stays \<open>2 ^ -1074\<close>); a result that reaches \<open>2 ^ 1024\<close>, that is
      \<open>n = 2 ^ 53\<close> at the exponent 1023, overflows to infinity\<close>
  "round64 s q =
     (if q = 0 then Fin s 0
      else let e = max (ilog 2 q) (- 1022);
               u = zpow 2 (e - 52);
               n = round_half_even (q / u)
           in if 1023 < e \<or> (e = 1023 \<and> 9007199254740992 \<le> n) then Infinity s
              else Fin s (of_int n * u))"

fun signed :: "bool \<Rightarrow> rat \<Rightarrow> rat" where
  "signed s q = (if s then - q else q)"

fun num_neg :: "jsnum \<Rightarrow> jsnum" where
  "num_neg NaN = NaN"
| "num_neg (Infinity s) = Infinity (\<not> s)"
| "num_neg (Fin s q) = Fin (\<not> s) q"

fun num_add :: "jsnum \<Rightarrow> jsnum \<Rightarrow> jsnum" where
  "num_add NaN _ = NaN"
| "num_add _ NaN = NaN"
| "num_add (Infinity s) (Infinity t) = (if s = t then Infinity s else NaN)"
| "num_add (Infinity s) (Fin _ _) = Infinity s"
| "num_add (Fin _ _) (Infinity t) = Infinity t"
| "num_add (Fin s a) (Fin t b) =
     (let x = signed s a + signed t b
      in if x = 0 then Fin (s \<and> t) 0 else round64 (x < 0) \<bar>x\<bar>)"

definition num_sub :: "jsnum \<Rightarrow> jsnum \<Rightarrow> jsnum" where
  "num_sub x y = num_add x (num_neg y)"

fun num_mul :: "jsnum \<Rightarrow> jsnum \<Rightarrow> jsnum" where
  "num_mul NaN _ = NaN"
| "num_mul _ NaN = NaN"
| "num_mul (Infinity s) (Infinity t) = Infinity (s \<noteq> t)"
| "num_mul (Infinity s) (Fin t b) = (if b = 0 then NaN else Infinity (s \<noteq> t))"
| "num_mul (Fin s a) (Infinity t) = (if a = 0 then NaN else Infinity (s \<noteq> t))"
| "num_mul (Fin s a) (Fin t b) = round64 (s \<noteq> t) (a * b)"

fun num_div :: "jsnum \<Rightarrow> jsnum \<Rightarrow> jsnum" where
  \<comment> \<open>a JavaScript division never throws: a zero divisor gives an infinity or \<open>NaN\<close>\<close>
  "num_div NaN _ = NaN"
| "num_div _ NaN = NaN"
| "num_div (Infinity s) (Infinity t) = NaN"
| "num_div (Infinity s) (Fin t b) = Infinity (s \<noteq> t)"
| "num_div (Fin s a) (Infinity t) = Fin (s \<noteq> t) 0"
| "num_div (Fin s a) (Fin t b) =
     (if b = 0 then (if a = 0 then NaN else Infinity (s \<noteq> t))
      else round64 (s \<noteq> t) (a / b))"

fun num_lt :: "jsnum \<Rightarrow> jsnum \<Rightarrow> bool" where
  \<comment> \<open>\<open>x < y\<close> on numbers: false when either side is \<open>NaN\<close>; the two zeros are equal\<close>
  "num_lt NaN _ = False"
| "num_lt _ NaN = False"
| "num_lt (Infinity s) (Infinity t) = (s \<and> \<not> t)"
| "num_lt (Infinity s) (Fin _ _) = s"
| "num_lt (Fin _ _) (Infinity t) = (\<not> t)"
| "num_lt (Fin s a) (Fin t b) = (signed s a < signed t b)"

definition num_gt :: "jsnum \<Rightarrow> jsnum \<Rightarrow> bool" where
  "num_gt x y = num_lt y x"

fun isNaN :: "jsnum \<Rightarrow> bool" where
  "isNaN NaN = True"
| "isNaN _ = False"

definition num_le :: "jsnum \<Rightarrow> jsnum \<Rightarrow> bool" where
  \<comment> \<open>\<open>x <= y\<close> is "not \<open>y < x\<close>" unless a side is \<open>NaN\<close>, when it is false\<close>
  "num_le x y = (\<not> isNaN x \<and> \<not> isNaN y \<and> \<not> num_lt y x)"

definition num_ge :: "jsnum \<Rightarrow> jsnum \<Rightarrow> bool" where
  "num_ge x y = (\<not> isNaN x \<and> \<not> isNaN y \<and> \<not> num_lt x y)"

fun Math_floor :: "jsnum \<Rightarrow> jsnum" where
  "Math_floor NaN = NaN"
| "Math_floor (Infinity s) = Infinity s"
| "Math_floor (Fin s q) =
     (if q = 0 then Fin s 0
      else if s then Fin True (of_int \<lceil>q\<rceil>)
      else Fin False (of_int \<lfloor>q\<rfloor>))"

section \<open>Strings, and the conversions between strings and numbers\<close>

text \<open>
  A string is a list of characters; the characters of the model are the code points below
  256. The white space that \<^verbatim>\<open>parseFloat\<close>, \<^verbatim>\<open>parseInt\<close>, the conversion of a
  string to a number and the white-space class of a regular expression skip is, among
  these code points: tab, line feed, vertical tab, form feed, carriage return, space and
  the no-break space.
\<close>

definition ws_chars :: "char list" where
  "ws_chars = [CHR 0x09, CHR 0x0A, CHR 0x0B, CHR 0x0C, CHR 0x0D, CHR 0x20, CHR 0xA0]"

definition is_ws :: "char \<Rightarrow> bool" where
  "is_ws c = (c \<in> set ws_chars)"

definition digit_table :: "(char \<times> int) list" where
  "digit_table =
     zip ''0123456789abcdefghijklmnopqrstuvwxyz'' [0..35] @
     zip ''ABCDEFGHIJKLMNOPQRSTUVWXYZ'' [10..35]"

definition radix_digit :: "int \<Rightarrow> char \<Rightarrow> int option" where
  \<comment> \<open>the value of \<open>c\<close> as a digit of radix \<open>r\<close>, if it is one\<close>
  "radix_digit r c =
     (case map_of digit_table c of
        Some d \<Rightarrow> if d < r then Some d else None
      | None \<Rightarrow> None)"

definition is_digit :: "char \<Rightarrow> bool" where
  "is_digit c = (radix_digit 10 c \<noteq> None)"

definition digits_value :: "int \<Rightarrow> string \<Rightarrow> int" where
  "digits_value r ds =
     foldl (\<lambda>a c. a * r + (case radix_digit r c of Some d \<Rightarrow> d | None \<Rightarrow> 0)) 0 ds"

subsection \<open>From a number to a string\<close>

definition digit_char :: "int \<Rightarrow> char" where
  "digit_char d = ''0123456789'' ! nat d"

function dec :: "int \<Rightarrow> string" where
  \<comment> \<open>the decimal digits of a non-negative integer\<close>
  "dec n = (if n < 10 then [digit_char n] else dec (n div 10) @ [digit_char (n mod 10)])"
  by pat_completeness auto
termination
  by (relation "measure nat") auto

declare dec.simps [simp del]

function shortest :: "rat \<Rightarrow> int \<Rightarrow> int \<Rightarrow> int \<times> int" where
  \<comment> \<open>\<open>Number::toString\<close>, step 5: the least \<open>k\<close> and a \<open>k\<close>-digit \<open>s\<close> with
      \<open>s * 10 ^ (n - k)\<close> rounding to the double \<open>x\<close>; of two such \<open>s\<close> the closer to
      \<open>x\<close>, the even one at equal distance. Seventeen digits always suffice.\<close>
  "shortest x n k =
     (let sc = zpow 10 (n - k);
          lo = \<lfloor>x / sc\<rfloor>; hi = lo + 1;
          dlo = x - of_int lo * sc; dhi = of_int hi * sc - x;
          oklo = (round64 False (of_int lo * sc) = Fin False x);
          okhi = (round64 False (of_int hi * sc) = Fin False x)
      in if oklo \<and> okhi then
           (if dhi < dlo \<or> (dhi = dlo \<and> odd lo) then (hi, k) else (lo, k))
         else if oklo then (lo, k)
         else if okhi then (hi, k)
         else if 17 \<le> k then (lo, k)
         else shortest x n (k + 1))"
  by pat_completeness auto
termination
  by (relation "measure (\<lambda>(x, n, k). nat (17 - k))") auto

declare shortest.simps [simp del]

definition pos_to_string :: "rat \<Rightarrow> string" where
  \<comment> \<open>\<open>Number::toString\<close> in radix 10 of a positive finite double\<close>
  "pos_to_string x =
     (let n0 = ilog 10 x + 1;
          (s0, k) = shortest x n0 1;
          (s, n) = (if s0 = 10 ^ nat k then (s0 div 10, n0 + 1) else (s0, n0));
          ds = dec s
      in if k \<le> n \<and> n \<le> 21 then ds @ replicate (nat (n - k)) (CHR ''0'')
         else if 0 < n \<and> n \<le> 21 then take (nat n) ds @ ''.'' @ drop (nat n) ds
         else if - 6 < n \<and> n \<le> 0 then ''0.'' @ replicate (nat (- n)) (CHR ''0'') @ ds
         else let e = n - 1;
                  es = (if e < 0 then ''-'' else ''+'') @ dec \<bar>e\<bar>
              in if k = 1 then ds @ ''e'' @ es
                 else take 1 ds @ ''.'' @ drop 1 ds @ ''e'' @ es)"

fun num_to_string :: "jsnum \<Rightarrow> string" where
  "num_to_string NaN = ''NaN''"
| "num_to_string (Infinity s) = (if s then ''-Infinity'' else ''Infinity'')"
| "num_to_string (Fin s q) =
     (if q = 0 then ''0'' else (if s then ''-'' else []) @ pos_to_string q)"

datatype js_error = RangeError

definition fixed_notation :: "jsnum \<Rightarrow> nat \<Rightarrow> string" where
  \<comment> \<open>the steps of \<open>Number.prototype.toFixed\<close> after its range check: the nearest
      multiple of \<open>10 ^ - f\<close>, the larger of two, in fixed notation; but the plain
      \<open>toString\<close> for a value that is not finite or whose magnitude reaches \<open>10 ^ 21\<close>\<close>
  "fixed_notation x f =
     (case x of
        Fin s q \<Rightarrow>
          (let sg = (if s \<and> q \<noteq> 0 then ''-'' else [])
           in if ipow 10 21 \<le> q then sg @ pos_to_string q
              else let n = \<lfloor>q * 10 ^ f + 1 / 2\<rfloor>;
                       m = dec n;
                       m' = replicate (f + 1 - length m) (CHR ''0'') @ m
                   in if f = 0 then sg @ m'
                      else sg @ take (length m' - f) m' @ ''.'' @ drop (length m' - f) m')
      | _ \<Rightarrow> num_to_string x)"

definition toFixed :: "jsnum \<Rightarrow> nat \<Rightarrow> js_error + string" where
  \<comment> \<open>\<open>Number.prototype.toFixed\<close> throws a \<open>RangeError\<close> for more than 100 digits\<close>
  "toFixed x f = (if 100 < f then Inl RangeError else Inr (fixed_notation x f))"

subsection \<open>From a string to a number\<close>

definition scan_exponent :: "string \<Rightarrow> int \<times> string" where
  \<comment> \<open>an exponent part (\<open>e\<close>, a sign, digits) at the head of the string, if a whole one
      is there: its value and the rest\<close>
  "scan_exponent r =
     (case r of
        [] \<Rightarrow> (0, r)
      | c # r' \<Rightarrow>
          if c = CHR ''e'' \<or> c = CHR ''E'' then
            (let (neg, r'') =
                   (case r' of
                      [] \<Rightarrow> (False, r')
                    | d # t \<Rightarrow> if d = CHR ''-'' then (True, t)
                               else if d = CHR ''+'' then (False, t) else (False, r'));
                 ds = takeWhile is_digit r'';
                 v = digits_value 10 ds
             in if ds = [] then (0, r)
                else (if neg then - v else v, dropWhile is_digit r''))
          else (0, r))"

definition scan_unsigned :: "bool \<Rightarrow> string \<Rightarrow> (jsnum \<times> string) option" where
  \<comment> \<open>the longest prefix that is an unsigned decimal literal (\<open>Infinity\<close>, or digits with
      an optional fraction and exponent), as the number of sign \<open>sg\<close>, and the rest\<close>
  "scan_unsigned sg s =
     (if take 8 s = ''Infinity'' then Some (Infinity sg, drop 8 s)
      else let ip = takeWhile is_digit s;
               r1 = dropWhile is_digit s;
               (fp, r2) =
                 (case r1 of
                    [] \<Rightarrow> ([], r1)
                  | c # r \<Rightarrow>
                      if c = CHR ''.'' \<and> (ip \<noteq> [] \<or> takeWhile is_digit r \<noteq> [])
                      then (takeWhile is_digit r, dropWhile is_digit r) else ([], r1))
           in if ip = [] \<and> fp = [] then None
              else let (ex, r3) = scan_exponent r2
                   in Some (round64 sg (of_int (digits_value 10 (ip @ fp)) *
                                         zpow 10 (ex - int (length fp))), r3))"

definition scan_decimal :: "string \<Rightarrow> (jsnum \<times> string) option" where
  "scan_decimal s =
     (case s of
        [] \<Rightarrow> None
      | c # r \<Rightarrow> if c = CHR ''-'' then scan_unsigned True r
                 else if c = CHR ''+'' then scan_unsigned False r
                 else scan_unsigned False s)"

definition radix_literal :: "string \<Rightarrow> jsnum option" where
  \<comment> \<open>\<open>0x\<close>, \<open>0o\<close> and \<open>0b\<close> literals, which only the conversion of a whole string reads\<close>
  "radix_literal t =
     (case t of
        c0 # c1 # ds \<Rightarrow>
          (let r = (if c1 = CHR ''x'' \<or> c1 = CHR ''X'' then 16
                    else if c1 = CHR ''o'' \<or> c1 = CHR ''O'' then 8
                    else if c1 = CHR ''b'' \<or> c1 = CHR ''B'' then 2 else 0)
           in if c0 = CHR ''0'' \<and> r \<noteq> 0 \<and> ds \<noteq> [] \<and>
                 list_all (\<lambda>c. radix_digit r c \<noteq> None) ds
              then Some (round64 False (of_int (digits_value r ds))) else None)
      | _ \<Rightarrow> None)"

definition StringToNumber :: "string \<Rightarrow> jsnum" where
  \<comment> \<open>the number a string converts to (\<open>Number(s)\<close>, and every comparison of a string
      with a number): the whole string, white space trimmed, must be a literal\<close>
  "StringToNumber s =
     (let t = rev (dropWhile is_ws (rev (dropWhile is_ws s)))
      in if t = [] then Fin False 0
         else case radix_literal t of
                Some v \<Rightarrow> v
              | None \<Rightarrow> (case scan_decimal t of
                           Some (v, []) \<Rightarrow> v
                         | _ \<Rightarrow> NaN))"

definition parseFloat_string :: "string \<Rightarrow> jsnum" where
  \<comment> \<open>\<open>parseFloat\<close> reads the longest decimal literal after leading white space and
      ignores what follows it\<close>
  "parseFloat_string s =
     (case scan_decimal (dropWhile is_ws s) of Some (v, _) \<Rightarrow> v | None \<Rightarrow> NaN)"

definition parseInt_string :: "string \<Rightarrow> int \<Rightarrow> jsnum" where
  \<comment> \<open>\<open>parseInt\<close> with an explicit radix: leading white space, a sign, a \<open>0x\<close> prefix
      only when the radix is 16, then the longest run of digits of the radix\<close>
  "parseInt_string s radix =
     (let t = dropWhile is_ws s;
          (neg, u) = (case t of
                        [] \<Rightarrow> (False, t)
                      | c # r \<Rightarrow> if c = CHR ''-'' then (True, r)
                                 else if c = CHR ''+'' then (False, r) else (False, t));
          w = (if radix = 16 \<and> (take 2 u = ''0x'' \<or> take 2 u = ''0X'') then drop 2 u else u);
          ds = takeWhile (\<lambda>c. radix_digit radix c \<noteq> None) w
      in if radix < 2 \<or> 36 < radix \<or> ds = [] then NaN
         else round64 neg (of_int (digits_value radix ds)))"

section \<open>The values of a request body\<close>

text \<open>
  \<^verbatim>\<open>express.json()\<close> parses the body, and the handler destructures seven properties
  from it. A property is absent (\<^verbatim>\<open>undefined\<close>), \<^verbatim>\<open>null\<close>, a boolean, a number, a
  string, an array or an object. The handler never reads the properties of an object; it
  applies \<^verbatim>\<open>!\<close>, the relational operators against a number, \<^verbatim>\<open>isFinite\<close>,
  \<^verbatim>\<open>parseFloat\<close> and \<^verbatim>\<open>parseInt\<close> to the value, each with the coercion the language
  prescribes. An object of a parsed body converts to the string \<^verbatim>\<open>[object Object]\<close>, and
  an array to its elements' strings joined by commas (\<^verbatim>\<open>null\<close> as the empty string).
  The one value left out is an object with a property of its own named \<^verbatim>\<open>toString\<close>,
  whose conversion throws.
\<close>

datatype jsval =
  JUndefined | JNull | JBool bool | JNum jsnum | JStr string | JArr "jsval list" | JObj

fun ToBoolean :: "jsval \<Rightarrow> bool" where
  "ToBoolean JUndefined = False"
| "ToBoolean JNull = False"
| "ToBoolean (JBool b) = b"
| "ToBoolean (JNum NaN) = False"
| "ToBoolean (JNum (Infinity _)) = True"
| "ToBoolean (JNum (Fin _ q)) = (q \<noteq> 0)"
| "ToBoolean (JStr s) = (s \<noteq> [])"
| "ToBoolean (JArr _) = True"
| "ToBoolean JObj = True"

fun ToString :: "jsval \<Rightarrow> string" and join :: "jsval list \<Rightarrow> string" where
  "ToString JUndefined = ''undefined''"
| "ToString JNull = ''null''"
| "ToString (JBool b) = (if b then ''true'' else ''false'')"
| "ToString (JNum x) = num_to_string x"
| "ToString (JStr s) = s"
| "ToString (JArr vs) = join vs"
| "ToString JObj = ''[object Object]''"
| "join [] = []"
| "join [v] = (if v = JUndefined \<or> v = JNull then [] else ToString v)"
| "join (v # w # vs) =
     (if v = JUndefined \<or> v = JNull then [] else ToString v) @ '','' @ join (w # vs)"

fun ToNumber :: "jsval \<Rightarrow> jsnum" where
  \<comment> \<open>an array or an object converts through its string\<close>
  "ToNumber JUndefined = NaN"
| "ToNumber JNull = Fin False 0"
| "ToNumber (JBool b) = (if b then Fin False 1 else Fin False 0)"
| "ToNumber (JNum x) = x"
| "ToNumber (JStr s) = StringToNumber s"
| "ToNumber (JArr vs) = StringToNumber (join vs)"
| "ToNumber JObj = StringToNumber ''[object Object]''"

definition js_lt :: "jsval \<Rightarrow> jsnum \<Rightarrow> bool" where
  \<comment> \<open>\<^verbatim>\<open>v < c\<close> for a number \<open>c\<close>\<close>
  "js_lt v c = num_lt (ToNumber v) c"

definition js_le :: "jsval \<Rightarrow> jsnum \<Rightarrow> bool" where
  \<comment> \<open>\<^verbatim>\<open>v <= c\<close>\<close>
  "js_le v c = num_le (ToNumber v) c"

definition js_gt :: "jsval \<Rightarrow> jsnum \<Rightarrow> bool" where
  \<comment> \<open>\<^verbatim>\<open>v > c\<close>\<close>
  "js_gt v c = num_gt (ToNumber v) c"

definition parseFloat :: "jsval \<Rightarrow> jsnum" where
  "parseFloat v = parseFloat_string (ToString v)"

definition parseInt :: "jsval \<Rightarrow> int \<Rightarrow> jsnum" where
  "parseInt v radix = parseInt_string (ToString v) radix"

definition isFinite :: "jsval \<Rightarrow> bool" where
  \<comment> \<open>the global \<^verbatim>\<open>isFinite\<close> converts its argument to a number first\<close>
  "isFinite v = (case ToNumber v of Fin _ _ \<Rightarrow> True | _ \<Rightarrow> False)"

definition isNumeric :: "jsval \<Rightarrow> bool" where
  \<comment> \<open>\<^verbatim>\<open>return !isNaN(parseFloat(value)) && isFinite(value);\<close>\<close>
  "isNumeric v = (\<not> isNaN (parseFloat v) \<and> isFinite v)"

section \<open>The route \<^verbatim>\<open>POST /validate\<close>\<close>

text \<open>
  The body of a request is a JSON object; \<open>request\<close> holds the seven properties the
  handler destructures from it. \<open>result\<close> is the object the handler passes to
  \<^verbatim>\<open>res.json\<close>, before its serialisation (which writes a number that is not finite as
  \<^verbatim>\<open>null\<close>).
\<close>

record request =
  movingAndSetupCost :: jsval
  monthlyLivingCost :: jsval
  rent :: jsval
  securityDeposit :: jsval
  totalMonthlyIncome :: jsval
  totalSavings :: jsval
  monthsToEvaluate :: jsval

record result =
  initialCosts :: jsnum
  totalMonthlyCost :: jsnum
  totalCostOverTime :: jsnum
  affordabilityDuration :: jsnum
  canAfford :: bool
  additionalMonthlyIncomeNeeded :: jsval

record row =
  row_id :: nat
  content :: string

text \<open>
  A response is a status and a JSON body: \<^verbatim>\<open>{ error: msg }\<close>, the result object of
  \<^verbatim>\<open>/validate\<close>, \<^verbatim>\<open>{ errors: [...] }\<close>, or the row that \<^verbatim>\<open>/feedback\<close> stored.
\<close>

datatype body = ErrorBody string | ResultBody result | ErrorsBody "string list" | RowBody row

datatype response = Response (status: int) (body: body)

definition fieldLabels :: "(string \<times> string) list" where
  "fieldLabels =
     [(''movingAndSetupCost'', ''Moving & Setup Costs''),
      (''monthlyLivingCost'', ''Monthly Living Costs''),
      (''rent'', ''Monthly Rent''),
      (''securityDeposit'', ''Security Deposit''),
      (''totalMonthlyIncome'', ''Total Monthly Income''),
      (''totalSavings'', ''Total Savings''),
      (''monthsToEvaluate'', ''Months to Evaluate'')]"

definition label_of :: "string \<Rightarrow> string" where
  \<comment> \<open>\<^verbatim>\<open>fieldLabels[key] || key\<close>\<close>
  "label_of key =
     (case map_of fieldLabels key of
        Some l \<Rightarrow> if l = [] then key else l
      | None \<Rightarrow> key)"

fun check_numeric :: "(string \<times> jsval) list \<Rightarrow> string option" where
  \<comment> \<open>the loop over \<^verbatim>\<open>Object.entries(parameters)\<close>: the message for the first entry
      that is not numeric\<close>
  "check_numeric [] = None"
| "check_numeric ((key, v) # entries) =
     (if \<not> isNumeric v then Some (label_of key @ '' must be a valid number.'')
      else check_numeric entries)"

definition parameters :: "request \<Rightarrow> (string \<times> jsval) list" where
  \<comment> \<open>the object literal \<^verbatim>\<open>parameters\<close>, in the order of its keys\<close>
  "parameters req =
     [(''movingAndSetupCost'', movingAndSetupCost req),
      (''monthlyLivingCost'', monthlyLivingCost req),
      (''rent'', rent req),
      (''securityDeposit'', securityDeposit req),
      (''totalMonthlyIncome'', totalMonthlyIncome req),
      (''totalSavings'', totalSavings req),
      (''monthsToEvaluate'', monthsToEvaluate req)]"

definition calculation :: "request \<Rightarrow> js_error + result" where
  \<comment> \<open>the conversions and the body of the \<^verbatim>\<open>try\<close> block; \<open>Inl\<close> is an exception
      thrown in it. The arithmetic and \<open>Math.floor\<close> do not throw; \<open>toFixed\<close> may.\<close>
  "calculation req =
     (let numMovingAndSetupCost = parseFloat (movingAndSetupCost req);
          numMonthlyLivingCost = parseFloat (monthlyLivingCost req);
          numRent = parseFloat (rent req);
          numSecurityDeposit = parseFloat (securityDeposit req);
          numTotalMonthlyIncome = parseFloat (totalMonthlyIncome req);
          numTotalSavings = parseFloat (totalSavings req);
          numMonthsToEvaluate = parseInt (monthsToEvaluate req) 10;
          initialCosts' = num_add numMovingAndSetupCost numSecurityDeposit;
          totalMonthlyCost' = num_add numMonthlyLivingCost numRent;
          totalCostOverTime' =
            num_add initialCosts' (num_mul totalMonthlyCost' numMonthsToEvaluate);
          totalFundsAvailable =
            num_add numTotalSavings (num_mul numTotalMonthlyIncome numMonthsToEvaluate);
          canAfford' = num_ge totalFundsAvailable totalCostOverTime';
          additionalMonthlyIncomeNeeded' =
            (if canAfford' then Inr (JNum (Fin False 0))
             else case toFixed
                         (num_sub
                            (num_div (num_sub totalCostOverTime' numTotalSavings)
                                     numMonthsToEvaluate)
                            numTotalMonthlyIncome) 2 of
                    Inl e \<Rightarrow> Inl e
                  | Inr str \<Rightarrow> Inr (JStr str))
      in case additionalMonthlyIncomeNeeded' of
           Inl e \<Rightarrow> Inl e
         | Inr needed \<Rightarrow>
             Inr \<lparr>initialCosts = initialCosts',
                  totalMonthlyCost = totalMonthlyCost',
                  totalCostOverTime = totalCostOverTime',
                  affordabilityDuration =
                    Math_floor (num_div totalFundsAvailable totalMonthlyCost'),
                  canAfford = canAfford',
                  additionalMonthlyIncomeNeeded = needed\<rparr>)"

definition post_validate :: "request \<Rightarrow> response" where
  "post_validate req =
     (if \<not> ToBoolean (movingAndSetupCost req) \<or> js_lt (movingAndSetupCost req) (Fin False 0)
      then Response 400 (ErrorBody ''Invalid moving and setup costs provided.'')
      else if \<not> ToBoolean (monthlyLivingCost req) \<or> js_lt (monthlyLivingCost req) (Fin False 0)
      then Response 400 (ErrorBody ''Invalid monthly living costs provided.'')
      else if \<not> ToBoolean (rent req) \<or> js_le (rent req) (Fin False 0)
      then Response 400 (ErrorBody ''Invalid rent provided.'')
      else if \<not> ToBoolean (monthsToEvaluate req) \<or> js_lt (monthsToEvaluate req) (Fin False 1)
              \<or> js_gt (monthsToEvaluate req) (Fin False 60)
      then Response 400 (ErrorBody ''Months To Evaluate must be between 1 and 60.'')
      else if \<not> ToBoolean (securityDeposit req) \<or> js_lt (securityDeposit req) (Fin False 0)
      then Response 400 (ErrorBody ''Invalid security deposit provided.'')
      else if \<not> ToBoolean (totalMonthlyIncome req) \<or> js_le (totalMonthlyIncome req) (Fin False 0)
      then Response 400 (ErrorBody ''Invalid total monthly income provided.'')
      else if \<not> ToBoolean (totalSavings req) \<or> js_lt (totalSavings req) (Fin False 0)
      then Response 400 (ErrorBody ''Invalid total savings provided.'')
      else case check_numeric (parameters req) of
             Some msg \<Rightarrow> Response 400 (ErrorBody msg)
           | None \<Rightarrow>
               (case calculation req of
                  Inr response \<Rightarrow> Response 200 (ResultBody response)
                | Inl error \<Rightarrow> Response 500 (ErrorBody ''Error processing your request.'')))"

section \<open>The route \<^verbatim>\<open>POST /feedback\<close>\<close>

text \<open>
  \<^verbatim>\<open>body("feedback").trim().escape()\<close> is an express-validator chain. A chain is a list
  of steps: a sanitizer rewrites the value, a validator records an error when the value
  fails it. \<^verbatim>\<open>validationResult(req)\<close> holds the recorded errors, and the request body
  then holds the rewritten value. The feedback text is a string here.
\<close>

datatype chain_step = Sanitizer "string \<Rightarrow> string" | Validator "string \<Rightarrow> bool" string

fun run_chain :: "chain_step list \<Rightarrow> string \<Rightarrow> string list \<Rightarrow> string \<times> string list" where
  "run_chain [] v errs = (v, errs)"
| "run_chain (Sanitizer f # steps) v errs = run_chain steps (f v) errs"
| "run_chain (Validator p msg # steps) v errs =
     run_chain steps v (if p v then errs else errs @ [msg])"

definition trim :: "string \<Rightarrow> string" where
  \<comment> \<open>the sanitizer \<^verbatim>\<open>trim()\<close>: white space removed from both ends\<close>
  "trim s = rev (dropWhile is_ws (rev (dropWhile is_ws s)))"

definition escape_char :: "char \<Rightarrow> string" where
  "escape_char c =
     (if c = CHR ''&'' then ''&amp;''
      else if c = CHR 0x22 then ''&quot;''
      else if c = CHR 0x27 then ''&#x27;''
      else if c = CHR ''<'' then ''&lt;''
      else if c = CHR ''>'' then ''&gt;''
      else if c = CHR ''/'' then ''&#x2F;''
      else if c = CHR 0x5C then ''&#x5C;''
      else if c = CHR 0x60 then ''&#96;''
      else [c])"

definition escape :: "string \<Rightarrow> string" where
  \<comment> \<open>the sanitizer \<^verbatim>\<open>escape()\<close>: the characters unsafe in HTML replaced by entities\<close>
  "escape s = concat (map escape_char s)"

definition feedback_chain :: "chain_step list" where
  "feedback_chain = [Sanitizer trim, Sanitizer escape]"

text \<open>
  \<^verbatim>\<open>pool.query\<close> either resolves with the inserted row, whose identifier the database
  assigns, or rejects with an error. The handler's effects are the rows of the table and
  the console: each call of \<^verbatim>\<open>console.log\<close> or \<^verbatim>\<open>console.error\<close> is recorded with
  its message and its argument.
\<close>

datatype query_outcome = Inserted nat | Rejected string

datatype logged = LogText string | LogRow row | LogError string

definition post_feedback ::
  "query_outcome \<Rightarrow> string \<Rightarrow> row list \<Rightarrow> response \<times> row list \<times> (string \<times> logged) list"
  where
  "post_feedback outcome text rows =
     (let (feedback, errors) = run_chain feedback_chain text []
      in if errors \<noteq> [] then (Response 400 (ErrorsBody errors), rows, [])
         else let console = [(''Received feedback:'', LogText feedback)]
              in case outcome of
                   Inserted i \<Rightarrow>
                     (let r = \<lparr>row_id = i, content = feedback\<rparr>
                      in (Response 201 (RowBody r), rows @ [r],
                          console @ [(''Feedback saved successfully:'', LogRow r)]))
                 | Rejected error \<Rightarrow>
                     (Response 500 (ErrorBody ''Internal server error''), rows,
                      console @ [(''Error saving feedback:'', LogError error)]))"

section \<open>The validation, field by field\<close>

text \<open>
  The specification describes the validation as a list of per-field checks tried in a
  fixed order. These definitions follow its words, to be compared with the handler.
\<close>

datatype field =
  MovingAndSetupCost | MonthlyLivingCost | Rent | MonthsToEvaluate
  | SecurityDeposit | TotalMonthlyIncome | TotalSavings

fun field_key :: "field \<Rightarrow> string" where
  "field_key MovingAndSetupCost = ''movingAndSetupCost''"
| "field_key MonthlyLivingCost = ''monthlyLivingCost''"
| "field_key Rent = ''rent''"
| "field_key MonthsToEvaluate = ''monthsToEvaluate''"
| "field_key SecurityDeposit = ''securityDeposit''"
| "field_key TotalMonthlyIncome = ''totalMonthlyIncome''"
| "field_key TotalSavings = ''totalSavings''"

fun field_value :: "field \<Rightarrow> request \<Rightarrow> jsval" where
  "field_value MovingAndSetupCost req = movingAndSetupCost req"
| "field_value MonthlyLivingCost req = monthlyLivingCost req"
| "field_value Rent req = rent req"
| "field_value MonthsToEvaluate req = monthsToEvaluate req"
| "field_value SecurityDeposit req = securityDeposit req"
| "field_value TotalMonthlyIncome req = totalMonthlyIncome req"
| "field_value TotalSavings req = totalSavings req"

fun range_fails :: "field \<Rightarrow> jsval \<Rightarrow> bool" where
  \<comment> \<open>the presence and range check of each field\<close>
  "range_fails MovingAndSetupCost v = (\<not> ToBoolean v \<or> js_lt v (Fin False 0))"
| "range_fails MonthlyLivingCost v = (\<not> ToBoolean v \<or> js_lt v (Fin False 0))"
| "range_fails Rent v = (\<not> ToBoolean v \<or> js_le v (Fin False 0))"
| "range_fails MonthsToEvaluate v =
     (\<not> ToBoolean v \<or> js_lt v (Fin False 1) \<or> js_gt v (Fin False 60))"
| "range_fails SecurityDeposit v = (\<not> ToBoolean v \<or> js_lt v (Fin False 0))"
| "range_fails TotalMonthlyIncome v = (\<not> ToBoolean v \<or> js_le v (Fin False 0))"
| "range_fails TotalSavings v = (\<not> ToBoolean v \<or> js_lt v (Fin False 0))"

fun range_message :: "field \<Rightarrow> string" where
  "range_message MovingAndSetupCost = ''Invalid moving and setup costs provided.''"
| "range_message MonthlyLivingCost = ''Invalid monthly living costs provided.''"
| "range_message Rent = ''Invalid rent provided.''"
| "range_message MonthsToEvaluate = ''Months To Evaluate must be between 1 and 60.''"
| "range_message SecurityDeposit = ''Invalid security deposit provided.''"
| "range_message TotalMonthlyIncome = ''Invalid total monthly income provided.''"
| "range_message TotalSavings = ''Invalid total savings provided.''"

definition numeric_message :: "field \<Rightarrow> string" where
  "numeric_message f = label_of (field_key f) @ '' must be a valid number.''"

definition range_order :: "field list" where
  \<comment> \<open>the order the specification enumerates\<close>
  "range_order =
     [MovingAndSetupCost, MonthlyLivingCost, Rent, MonthsToEvaluate,
      SecurityDeposit, TotalMonthlyIncome, TotalSavings]"

definition entries_order :: "field list" where
  \<comment> \<open>the order of the keys of \<^verbatim>\<open>parameters\<close>\<close>
  "entries_order =
     [MovingAndSetupCost, MonthlyLivingCost, Rent, SecurityDeposit,
      TotalMonthlyIncome, TotalSavings, MonthsToEvaluate]"

definition first_failure :: "field list \<Rightarrow> field list \<Rightarrow> request \<Rightarrow> string option" where
  \<comment> \<open>first failure wins: the presence and range checks in the order \<open>ro\<close>, and only when
      all of them pass the numeric-format checks in the order \<open>no\<close>\<close>
  "first_failure ro no req =
     (case find (\<lambda>f. range_fails f (field_value f req)) ro of
        Some f \<Rightarrow> Some (range_message f)
      | None \<Rightarrow>
          (case find (\<lambda>f. \<not> isNumeric (field_value f req)) no of
             Some f \<Rightarrow> Some (numeric_message f)
           | None \<Rightarrow> None))"

section \<open>The calculation as the specification words it\<close>

text \<open>
  The specification states its formulas over the fields of the request. These
  definitions read them on the numbers the request supplies (\<open>ToNumber\<close> of each field).
\<close>

definition spec_totalFundsAvailable :: "request \<Rightarrow> jsnum" where
  "spec_totalFundsAvailable req =
     num_add (ToNumber (totalSavings req))
             (num_mul (ToNumber (totalMonthlyIncome req)) (ToNumber (monthsToEvaluate req)))"

definition spec_totalMonthlyCost :: "request \<Rightarrow> jsnum" where
  "spec_totalMonthlyCost req =
     num_add (ToNumber (monthlyLivingCost req)) (ToNumber (rent req))"

definition spec_totalCostOverTime :: "request \<Rightarrow> jsnum" where
  "spec_totalCostOverTime req =
     num_add (num_add (ToNumber (movingAndSetupCost req)) (ToNumber (securityDeposit req)))
             (num_mul (spec_totalMonthlyCost req) (ToNumber (monthsToEvaluate req)))"

definition spec_canAfford :: "request \<Rightarrow> bool" where
  "spec_canAfford req = num_ge (spec_totalFundsAvailable req) (spec_totalCostOverTime req)"

definition spec_affordabilityDuration :: "request \<Rightarrow> jsnum" where
  "spec_affordabilityDuration req =
     Math_floor (num_div (spec_totalFundsAvailable req) (spec_totalMonthlyCost req))"

definition spec_shortfall :: "request \<Rightarrow> jsnum" where
  "spec_shortfall req =
     num_sub (num_div (num_sub (spec_totalCostOverTime req) (ToNumber (totalSavings req)))
                      (ToNumber (monthsToEvaluate req)))
             (ToNumber (totalMonthlyIncome req))"

definition two_decimals :: "string \<Rightarrow> bool" where
  \<comment> \<open>an optional minus sign, digits, a point and exactly two digits\<close>
  "two_decimals s =
     (let u = (case s of [] \<Rightarrow> s | c # r \<Rightarrow> if c = CHR ''-'' then r else s);
          ip = takeWhile is_digit u
      in ip \<noteq> [] \<and>
         (case dropWhile is_digit u of
            [p, a, b] \<Rightarrow> p = CHR ''.'' \<and> is_digit a \<and> is_digit b
          | _ \<Rightarrow> False))"

subsection \<open>The requests the formulas are read on\<close>

text \<open>
  The handler cuts \<^verbatim>\<open>monthsToEvaluate\<close> to whole months; \<open>whole_months\<close> is the
  request with that cut made, on which the formulas above are then read. The handler
  validates the number a field converts to, and computes on what \<^verbatim>\<open>parseFloat\<close> and
  \<^verbatim>\<open>parseInt\<close> read from the string of the field. The two agree on a JSON number and
  on a decimal numeric string; they part on a string such as \<^verbatim>\<open>0x10\<close>, which is
  validated as 16 and read as 0.
\<close>

definition whole_months :: "request \<Rightarrow> request" where
  \<comment> \<open>the request with \<^verbatim>\<open>monthsToEvaluate\<close> cut to whole months\<close>
  "whole_months req =
     req\<lparr>monthsToEvaluate := JNum (Math_floor (ToNumber (monthsToEvaluate req)))\<rparr>"

definition json_number :: "jsval \<Rightarrow> bool" where
  \<comment> \<open>a JSON number: a finite double, of either sign\<close>
  "json_number v =
     (case v of JNum (Fin s q) \<Rightarrow> 0 \<le> q \<and> round64 s q = Fin s q | _ \<Rightarrow> False)"

definition json_numbers :: "request \<Rightarrow> bool" where
  \<comment> \<open>a request whose seven fields are JSON numbers\<close>
  "json_numbers req =
     (json_number (movingAndSetupCost req) \<and> json_number (monthlyLivingCost req)
      \<and> json_number (rent req) \<and> json_number (securityDeposit req)
      \<and> json_number (totalMonthlyIncome req) \<and> json_number (totalSavings req)
      \<and> json_number (monthsToEvaluate req))"

definition reads_validated_numbers :: "request \<Rightarrow> bool" where
  \<comment> \<open>the calculation reads every field as the number the validation compared, and the
      months as the whole months of that number\<close>
  "reads_validated_numbers req =
     (parseFloat (movingAndSetupCost req) = ToNumber (movingAndSetupCost req)
      \<and> parseFloat (monthlyLivingCost req) = ToNumber (monthlyLivingCost req)
      \<and> parseFloat (rent req) = ToNumber (rent req)
      \<and> parseFloat (securityDeposit req) = ToNumber (securityDeposit req)
      \<and> parseFloat (totalMonthlyIncome req) = ToNumber (totalMonthlyIncome req)
      \<and> parseFloat (totalSavings req) = ToNumber (totalSavings req)
      \<and> parseInt (monthsToEvaluate req) 10 = Math_floor (ToNumber (monthsToEvaluate req)))"

section \<open>Requests\<close>

text \<open>
  The requests at which the properties below are evaluated: the two examples of the
  specification, and requests on which the handler and the wording of the specification
  part.
\<close>

definition request_of ::
  "jsval \<Rightarrow> jsval \<Rightarrow> jsval \<Rightarrow> jsval \<Rightarrow> jsval \<Rightarrow> jsval \<Rightarrow> jsval \<Rightarrow> request" where
  "request_of m l r s i sv mo =
     \<lparr>movingAndSetupCost = m, monthlyLivingCost = l, rent = r, securityDeposit = s,
      totalMonthlyIncome = i, totalSavings = sv, monthsToEvaluate = mo\<rparr>"

definition number :: "rat \<Rightarrow> jsval" where
  \<comment> \<open>a JSON number that is a non-negative double\<close>
  "number q = JNum (Fin False q)"

definition spec_example :: request where
  "spec_example =
     request_of (number 1000) (number 200) (number 1500) (number 1500) (number 4000)
       (number 5000) (number 6)"

definition spec_example_500 :: request where
  "spec_example_500 =
     request_of (number 1000) (number 200) (number 1500) (number 1500) (number 500)
       (number 5000) (number 6)"

definition months_one_and_a_half :: request where
  "months_one_and_a_half =
     request_of (number 5) (number 2) (number 10) (number 5) (number 20) (number 1)
       (number (3 / 2))"

definition months_two_and_a_half :: request where
  "months_two_and_a_half =
     request_of (number 1) (number 5) (number 5) (number 1) (number 10) (number 5)
       (number (5 / 2))"

definition huge_moving_cost :: request where
  "huge_moving_cost =
     request_of (number 10000000000000000000000) (number 200) (number 1500)
       (number 1500) (number 500) (number 5000) (number (3 / 2))"

definition hex_strings :: request where
  "hex_strings =
     request_of (number 1000) (JStr ''0x10'') (JStr ''0x10'') (number 1500)
       (number 4000) (number 5000) (number 6)"

definition two_not_numeric :: request where
  "two_not_numeric =
     request_of (number 1000) (number 200) (number 1500) (JStr ''abc'') (number 4000)
       (number 5000) (JStr ''abc'')"

definition no_moving_cost_100_months :: request where
  "no_moving_cost_100_months =
     request_of JUndefined (number 200) (number 1500) (number 1500) (number 4000)
       (number 5000) (number 100)"

definition months_100 :: request where
  "months_100 =
     request_of (number 1000) (number 200) (number 1500) JNull (JStr ''x'') JUndefined
       (number 100)"

definition zero_rent :: request where
  "zero_rent =
     request_of (number 1000) (number 200) (number 0) (number 1500) (number 4000)
       (number 5000) (number 6)"

definition json_decimal :: "rat \<Rightarrow> jsval" where
  \<comment> \<open>the JSON number written as the decimal \<open>q\<close>: the double nearest to it\<close>
  "json_decimal q = JNum (round64 False q)"

definition decimal_amounts :: request where
  \<comment> \<open>amounts with cents, and two and a half months\<close>
  "decimal_amounts =
     request_of (json_decimal (99999 / 100)) (json_decimal (2005 / 10))
       (json_decimal (149995 / 100)) (json_decimal 1500) (json_decimal (40001 / 10))
       (json_decimal (500025 / 100)) (json_decimal (25 / 10))"

definition decimal_amounts_result :: result where
  "decimal_amounts_result =
       \<lparr>initialCosts = Fin False (1374384037161861 / 549755813888),
        totalMonthlyCost = Fin False (7478658189806797 / 4398046511104),
        totalCostOverTime = Fin False (405506073076695 / 68719476736),
        affordabilityDuration = Fin False 7,
        canAfford = True, additionalMonthlyIncomeNeeded = JNum (Fin False 0)\<rparr>"

definition huge_moving_cost_six_months :: request where
  "huge_moving_cost_six_months =
     request_of (number 10000000000000000000000) (number 200) (number 1500)
       (number 1500) (number 500) (number 5000) (number 6)"

definition huge_moving_cost_six_months_result :: result where
  "huge_moving_cost_six_months_result =
       \<lparr>initialCosts = Fin False 10000000000000000000000,
        totalMonthlyCost = Fin False 1700,
        totalCostOverTime = Fin False 10000000000000000000000,
        affordabilityDuration = Fin False 4,
        canAfford = False,
        additionalMonthlyIncomeNeeded = JStr ''1.6666666666666668e+21''\<rparr>"

definition months_100_no_rent :: request where
  "months_100_no_rent =
     request_of (number 1000) (number 200) JNull (number 1500) (number 4000) (number 5000)
       (number 100)"

definition hex_savings :: request where
  \<comment> \<open>savings that are validated as 16 and read as 0\<close>
  "hex_savings =
     request_of (number 5) (number 2) (number 10) (number 5) (number 10) (JStr ''0x10'')
       (number 1)"

definition numeric_strings :: request where
  \<comment> \<open>the example of the specification, every number sent as a string\<close>
  "numeric_strings =
     request_of (JStr ''1000'') (JStr ''200'') (JStr ''1500'') (JStr ''1500'') (JStr ''4000'')
       (JStr ''5000'') (JStr ''6'')"

definition spec_example_result :: result where
  "spec_example_result =
       \<lparr>initialCosts = Fin False 2500, totalMonthlyCost = Fin False 1700,
        totalCostOverTime = Fin False 12700, affordabilityDuration = Fin False 17,
        canAfford = True, additionalMonthlyIncomeNeeded = JNum (Fin False 0)\<rparr>"

definition spec_example_500_result :: result where
  "spec_example_500_result =
       \<lparr>initialCosts = Fin False 2500, totalMonthlyCost = Fin False 1700,
        totalCostOverTime = Fin False 12700, affordabilityDuration = Fin False 4,
        canAfford = False, additionalMonthlyIncomeNeeded = JStr ''783.33''\<rparr>"

section \<open>Properties of the validation\<close>

lemma toFixed_2: "toFixed x 2 = Inr (fixed_notation x 2)"
  by (simp add: toFixed_def)

lemma calculation_returns: "\<exists>r. calculation req = Inr r"
  by (simp add: calculation_def Let_def toFixed_2)

lemma post_validate_200:
  "post_validate req = Response 200 (ResultBody r) \<Longrightarrow> calculation req = Inr r"
  by (auto simp: post_validate_def split: if_splits option.splits sum.splits)

lemma result_fields:
  assumes "post_validate req = Response 200 (ResultBody r)"
  shows "r =
     (let months = parseInt (monthsToEvaluate req) 10;
          funds = num_add (parseFloat (totalSavings req))
                    (num_mul (parseFloat (totalMonthlyIncome req)) months);
          monthly = num_add (parseFloat (monthlyLivingCost req)) (parseFloat (rent req));
          initial = num_add (parseFloat (movingAndSetupCost req))
                      (parseFloat (securityDeposit req));
          total = num_add initial (num_mul monthly months)
      in \<lparr>initialCosts = initial, totalMonthlyCost = monthly, totalCostOverTime = total,
          affordabilityDuration = Math_floor (num_div funds monthly),
          canAfford = num_ge funds total,
          additionalMonthlyIncomeNeeded =
            (if num_ge funds total then JNum (Fin False 0)
             else JStr (fixed_notation
                          (num_sub (num_div (num_sub total (parseFloat (totalSavings req)))
                                            months)
                                   (parseFloat (totalMonthlyIncome req))) 2))\<rparr>)"
  using post_validate_200 [OF assms]
  by (simp add: calculation_def Let_def toFixed_2 split: if_splits)

lemma post_validate_no_500: "status (post_validate req) \<noteq> 500"
proof -
  obtain r where "calculation req = Inr r" using calculation_returns by blast
  then show ?thesis by (simp add: post_validate_def split: option.splits)
qed

lemma numeric_message_simps:
  "numeric_message MovingAndSetupCost = ''Moving & Setup Costs must be a valid number.''"
  "numeric_message MonthlyLivingCost = ''Monthly Living Costs must be a valid number.''"
  "numeric_message Rent = ''Monthly Rent must be a valid number.''"
  "numeric_message SecurityDeposit = ''Security Deposit must be a valid number.''"
  "numeric_message TotalMonthlyIncome = ''Total Monthly Income must be a valid number.''"
  "numeric_message TotalSavings = ''Total Savings must be a valid number.''"
  "numeric_message MonthsToEvaluate = ''Months to Evaluate must be a valid number.''"
  by (simp_all add: numeric_message_def label_of_def fieldLabels_def)

lemma check_numeric_entries:
  "check_numeric (parameters req) =
     map_option numeric_message (find (\<lambda>f. \<not> isNumeric (field_value f req)) entries_order)"
  by (simp add: parameters_def entries_order_def numeric_message_def label_of_def fieldLabels_def)

lemma post_validate_stages:
  "post_validate req =
     (case first_failure range_order entries_order req of
        Some msg \<Rightarrow> Response 400 (ErrorBody msg)
      | None \<Rightarrow>
          (case calculation req of
             Inr r \<Rightarrow> Response 200 (ResultBody r)
           | Inl e \<Rightarrow> Response 500 (ErrorBody ''Error processing your request.'')))"
  unfolding post_validate_def check_numeric_entries first_failure_def range_order_def
  by (simp split: option.splits)

lemma validated_result:
  assumes ok: "post_validate req = Response 200 (ResultBody r)"
      and rd: "reads_validated_numbers req"
  shows "totalMonthlyCost r = spec_totalMonthlyCost (whole_months req)"
    and "totalCostOverTime r = spec_totalCostOverTime (whole_months req)"
    and "canAfford r = spec_canAfford (whole_months req)"
    and "affordabilityDuration r = spec_affordabilityDuration (whole_months req)"
    and "additionalMonthlyIncomeNeeded r =
           (if spec_canAfford (whole_months req) then JNum (Fin False 0)
            else JStr (fixed_notation (spec_shortfall (whole_months req)) 2))"
    and "initialCosts r =
           num_add (ToNumber (movingAndSetupCost req)) (ToNumber (securityDeposit req))"
proof -
  from rd have conv:
    "parseFloat (movingAndSetupCost req) = ToNumber (movingAndSetupCost req)"
    "parseFloat (monthlyLivingCost req) = ToNumber (monthlyLivingCost req)"
    "parseFloat (rent req) = ToNumber (rent req)"
    "parseFloat (securityDeposit req) = ToNumber (securityDeposit req)"
    "parseFloat (totalMonthlyIncome req) = ToNumber (totalMonthlyIncome req)"
    "parseFloat (totalSavings req) = ToNumber (totalSavings req)"
    "parseInt (monthsToEvaluate req) 10 = Math_floor (ToNumber (monthsToEvaluate req))"
    by (simp_all add: reads_validated_numbers_def)
  note r = result_fields [OF ok, unfolded conv Let_def]
  note defs = spec_canAfford_def spec_totalFundsAvailable_def spec_totalCostOverTime_def
    spec_totalMonthlyCost_def spec_affordabilityDuration_def spec_shortfall_def whole_months_def
  show "totalMonthlyCost r = spec_totalMonthlyCost (whole_months req)"
    by (subst r) (simp add: defs)
  show "totalCostOverTime r = spec_totalCostOverTime (whole_months req)"
    by (subst r) (simp add: defs)
  show "canAfford r = spec_canAfford (whole_months req)"
    by (subst r) (simp add: defs)
  show "affordabilityDuration r = spec_affordabilityDuration (whole_months req)"
    by (subst r) (simp add: defs)
  show "additionalMonthlyIncomeNeeded r =
           (if spec_canAfford (whole_months req) then JNum (Fin False 0)
            else JStr (fixed_notation (spec_shortfall (whole_months req)) 2))"
    by (subst r) (simp add: defs)
  show "initialCosts r =
           num_add (ToNumber (movingAndSetupCost req)) (ToNumber (securityDeposit req))"
    by (subst r) simp
qed

lemma whole_months_id:
  assumes "Math_floor (ToNumber (monthsToEvaluate req)) = ToNumber (monthsToEvaluate req)"
  shows "spec_canAfford (whole_months req) = spec_canAfford req"
    and "spec_affordabilityDuration (whole_months req) = spec_affordabilityDuration req"
    and "spec_shortfall (whole_months req) = spec_shortfall req"
    and "spec_totalCostOverTime (whole_months req) = spec_totalCostOverTime req"
  using assms
  by (simp_all add: spec_canAfford_def spec_totalFundsAvailable_def spec_totalCostOverTime_def
    spec_totalMonthlyCost_def spec_affordabilityDuration_def spec_shortfall_def whole_months_def)

lemma post_validate_200_checks:
  assumes "post_validate req = Response 200 (ResultBody r)"
  shows "\<not> range_fails f (field_value f req)"
  using assms by (cases f) (auto simp: post_validate_def split: if_splits)

section \<open>Evaluations\<close>

lemma spec_example_eval:
  "post_validate spec_example = Response 200 (ResultBody spec_example_result)"
  by code_simp

lemma spec_example_500_eval:
  "post_validate spec_example_500 = Response 200 (ResultBody spec_example_500_result)"
  by code_simp

lemma months_one_and_a_half_eval:
  "post_validate months_one_and_a_half =
     Response 200 (ResultBody
       \<lparr>initialCosts = Fin False 10, totalMonthlyCost = Fin False 12,
        totalCostOverTime = Fin False 22, affordabilityDuration = Fin False 1,
        canAfford = False, additionalMonthlyIncomeNeeded = JStr ''1.00''\<rparr>)"
  by code_simp

lemma months_two_and_a_half_eval:
  "post_validate months_two_and_a_half =
     Response 200 (ResultBody
       \<lparr>initialCosts = Fin False 2, totalMonthlyCost = Fin False 10,
        totalCostOverTime = Fin False 22, affordabilityDuration = Fin False 2,
        canAfford = True, additionalMonthlyIncomeNeeded = JNum (Fin False 0)\<rparr>)"
  by code_simp

lemma huge_moving_cost_eval:
  "post_validate huge_moving_cost =
     Response 200 (ResultBody
       \<lparr>initialCosts = Fin False 10000000000000000000000, totalMonthlyCost = Fin False 1700,
        totalCostOverTime = Fin False 10000000000000000000000,
        affordabilityDuration = Fin False 3,
        canAfford = False, additionalMonthlyIncomeNeeded = JStr ''1e+22''\<rparr>)"
  by code_simp

lemma decimal_amounts_eval:
  "post_validate decimal_amounts = Response 200 (ResultBody decimal_amounts_result)"
  by code_simp

lemma decimal_amounts_json: "json_numbers decimal_amounts"
  by code_simp

lemma huge_moving_cost_six_months_eval:
  "post_validate huge_moving_cost_six_months =
     Response 200 (ResultBody huge_moving_cost_six_months_result)"
  by code_simp

lemma numeric_strings_eval:
  "post_validate numeric_strings = Response 200 (ResultBody spec_example_result)"
  "reads_validated_numbers numeric_strings"
  "\<not> json_numbers numeric_strings"
  by code_simp+

lemma hex_savings_facts:
  "post_validate hex_savings =
     Response 200 (ResultBody
       \<lparr>initialCosts = Fin False 10, totalMonthlyCost = Fin False 12,
        totalCostOverTime = Fin False 22, affordabilityDuration = Fin False 0,
        canAfford = False, additionalMonthlyIncomeNeeded = JStr ''12.00''\<rparr>)"
  "spec_canAfford (whole_months hex_savings)"
  "spec_affordabilityDuration (whole_months hex_savings) = Fin False 2"
  "\<not> json_numbers hex_savings"
  "\<not> reads_validated_numbers hex_savings"
  by code_simp+

lemma spec_examples_json:
  "json_numbers spec_example"
  "json_numbers spec_example_500"
  "Math_floor (ToNumber (monthsToEvaluate spec_example)) =
     ToNumber (monthsToEvaluate spec_example)"
  "Math_floor (ToNumber (monthsToEvaluate spec_example_500)) =
     ToNumber (monthsToEvaluate spec_example_500)"
  by code_simp+

lemma spec_examples_spec:
  "spec_shortfall spec_example_500 = Fin False (3445136433698133 / 4398046511104)"
  by code_simp

section \<open>The rendering of \<^verbatim>\<open>toFixed\<close>\<close>

lemma digits_0_9: "list_all (\<lambda>d. is_digit (digit_char d)) [0..9]"
  by code_simp

lemma is_digit_digit_char:
  assumes "d < 10"
  shows "is_digit (digit_char d)"
proof (cases "0 \<le> d")
  case True
  with assms have "d \<in> set [0..9]" by simp
  with digits_0_9 show ?thesis by (simp only: list_all_iff)
next
  case False
  then have "digit_char d = digit_char 0" by (simp add: digit_char_def)
  moreover have "(0::int) \<in> set [0..9]" by simp
  ultimately show ?thesis using digits_0_9 by (simp only: list_all_iff)
qed

lemma dec_digits: "list_all is_digit (dec n) \<and> dec n \<noteq> []"
proof (induction n rule: dec.induct)
  case (1 n)
  show ?case
  proof (cases "n < 10")
    case True
    then show ?thesis by (subst (1 2) dec.simps) (simp add: is_digit_digit_char)
  next
    case False
    have "n mod 10 < 10" by simp
    with False 1 show ?thesis
      by (subst (1 2) dec.simps) (simp add: is_digit_digit_char)
  qed
qed

lemma not_digit_point: "\<not> is_digit (CHR ''.'')"
  by code_simp

lemma not_digit_minus: "\<not> is_digit (CHR ''-'')"
  by code_simp

lemma two_decimals_split:
  assumes digits: "list_all is_digit ds"
      and len: "3 \<le> length ds"
      and sg: "sg = [] \<or> sg = ''-''"
  shows "two_decimals (sg @ take (length ds - 2) ds @ ''.'' @ drop (length ds - 2) ds)"
proof -
  define A where "A = take (length ds - 2) ds"
  define B where "B = drop (length ds - 2) ds"
  have A_digits: "\<And>c. c \<in> set A \<Longrightarrow> is_digit c"
    using digits by (auto simp: A_def list_all_iff dest: in_set_takeD)
  have B_digits: "\<And>c. c \<in> set B \<Longrightarrow> is_digit c"
    using digits by (auto simp: B_def list_all_iff dest: in_set_dropD)
  have "A \<noteq> []" using len by (auto simp: A_def)
  then obtain a0 A' where A: "A = a0 # A'" by (cases A) auto
  then have "is_digit a0" using A_digits by simp
  then have a0: "a0 \<noteq> CHR ''-''" using not_digit_minus by auto
  have "length B = 2" using len by (simp add: B_def)
  then obtain a b where B: "B = [a, b]"
    by (cases B; cases "tl B"; cases "tl (tl B)") auto
  have tw: "takeWhile is_digit (A @ ''.'' @ B) = A"
    using A_digits not_digit_point by simp
  have dw: "dropWhile is_digit (A @ ''.'' @ B) = ''.'' @ B"
    using A_digits not_digit_point by simp
  have strip: "(case sg @ A @ ''.'' @ B of [] \<Rightarrow> sg @ A @ ''.'' @ B
                 | c # r \<Rightarrow> if c = CHR ''-'' then r else sg @ A @ ''.'' @ B) = A @ ''.'' @ B"
    using sg a0 by (auto simp: A)
  show ?thesis
    unfolding two_decimals_def A_def [symmetric] B_def [symmetric] strip Let_def tw dw
    using \<open>A \<noteq> []\<close> B_digits by (simp add: B)
qed

lemma ipow_10_21: "ipow 10 21 = 1000000000000000000000"
  by code_simp

lemma fixed_notation_two_decimals:
  assumes "q < 10 ^ 21"
  shows "two_decimals (fixed_notation (Fin s q) 2)"
proof -
  define m where "m = dec \<lfloor>q * 10 ^ 2 + 1 / 2\<rfloor>"
  define m' where "m' = replicate (2 + 1 - length m) (CHR ''0'') @ m"
  have zero: "is_digit (CHR ''0'')" by code_simp
  have "list_all is_digit m" and "m \<noteq> []" using dec_digits by (simp_all add: m_def)
  then have d: "list_all is_digit m'" using zero by (auto simp: m'_def list_all_iff)
  have l: "3 \<le> length m'" by (simp add: m'_def)
  have "fixed_notation (Fin s q) 2 =
          (if s \<and> q \<noteq> 0 then ''-'' else []) @ take (length m' - 2) m' @ ''.'' @
          drop (length m' - 2) m'"
    using assms by (simp add: fixed_notation_def ipow_10_21 Let_def m'_def m_def)
  then show ?thesis using two_decimals_split [OF d l] by simp
qed

section \<open>Whole numbers convert to themselves\<close>

text \<open>
  The handler converts a number by writing it as a string and reading the string back.
  For a positive whole number below \<open>10 ^ 15\<close> the string is its decimal digits, and
  \<^verbatim>\<open>parseFloat\<close> and \<^verbatim>\<open>parseInt\<close> read the same number back.
\<close>

lemma ipow_int: "ipow b (int k) = b ^ k"
proof (induction k arbitrary: b rule: less_induct)
  case (less k)
  show ?case
  proof (cases "k = 0")
    case True
    then show ?thesis by (subst ipow.simps) simp
  next
    case False
    then have lt: "k div 2 < k" by simp
    have half: "int k div 2 = int (k div 2)" by simp
    have ih: "ipow (b * b) (int (k div 2)) = (b * b) ^ (k div 2)"
      using less.IH [OF lt] .
    have sq: "(b * b) ^ (k div 2) = b ^ (2 * (k div 2))"
      by (simp add: power_mult power2_eq_square)
    show ?thesis
    proof (cases "even k")
      case True
      then have "2 * (k div 2) = k" by simp
      with ih sq have "ipow (b * b) (int k div 2) = b ^ k" by (simp add: half)
      moreover have "int k mod 2 = 0" using True by presburger
      ultimately show ?thesis using False by (subst ipow.simps) simp
    next
      case odd: False
      then have "Suc (2 * (k div 2)) = k" by simp
      then have "b * b ^ (2 * (k div 2)) = b ^ k" by (metis power_Suc)
      with ih sq have "b * ipow (b * b) (int k div 2) = b ^ k" by (simp add: half)
      moreover have "int k mod 2 \<noteq> 0" using odd by presburger
      ultimately show ?thesis using False by (subst ipow.simps) simp
    qed
  qed
qed

lemma zpow_power: "0 \<le> e \<Longrightarrow> zpow b e = b ^ nat e"
  using ipow_int [of b "nat e"] by (simp add: zpow_def)

lemma numlen_small: "2 \<le> b \<Longrightarrow> 0 < n \<Longrightarrow> n < b \<Longrightarrow> numlen b n = 1"
proof -
  assume a: "2 \<le> b" "0 < n" "n < b"
  then have "n div b = 0" by simp
  then have "numlen b (n div b) = 0" by (subst numlen.simps) simp
  with a show ?thesis by (subst numlen.simps) simp
qed

lemma numlen_bounds:
  assumes "2 \<le> b" and "0 < n"
  shows "1 \<le> numlen b n \<and> b ^ nat (numlen b n - 1) \<le> n \<and> n < b ^ nat (numlen b n)"
  using assms
proof (induction b n rule: numlen.induct)
  case (1 b n)
  have bpos: "0 < b" using 1(2) by simp
  show ?case
  proof (cases "n < b")
    case True
    with 1(2,3) numlen_small have "numlen b n = 1" by simp
    with True 1(3) show ?thesis by simp
  next
    case False
    have unfold: "numlen b n = 1 + numlen b (n div b)"
      using 1(2,3) by (subst numlen.simps) simp
    from False bpos have pos: "0 < n div b"
      by (simp add: pos_imp_zdiv_pos_iff)
    from 1(2,3) have cond: "\<not> (n \<le> 0 \<or> b < 2)" by simp
    from 1(1) [OF cond 1(2) pos]
    have L: "1 \<le> numlen b (n div b)"
      and lo: "b ^ nat (numlen b (n div b) - 1) \<le> n div b"
      and hi: "n div b < b ^ nat (numlen b (n div b))"
      by simp_all
    define L where "L = nat (numlen b (n div b) - 1)"
    have Lnat: "nat (numlen b (n div b)) = Suc L" using L by (simp add: L_def)
    have len: "nat (numlen b n - 1) = Suc L" "nat (numlen b n) = Suc (Suc L)"
      using unfold L by (simp_all add: L_def)
    have split: "n = b * (n div b) + n mod b" by simp
    have m0: "0 \<le> n mod b" and m1: "n mod b < b" using bpos by simp_all
    have "b * b ^ L \<le> b * (n div b)"
      using lo bpos by (simp add: L_def)
    with split m0 have "b * b ^ L \<le> n" by linarith
    then have lower: "b ^ Suc L \<le> n" by simp
    have "n div b + 1 \<le> b ^ Suc L" using hi by (simp add: Lnat)
    then have "b * (n div b + 1) \<le> b * b ^ Suc L" using bpos by simp
    moreover have "n < b * (n div b) + b" using split m1 by linarith
    then have "n < b * (n div b + 1)" by (simp add: distrib_left)
    ultimately have upper: "n < b ^ Suc (Suc L)" by simp
    have "1 \<le> numlen b n" using unfold L by simp
    with lower upper show ?thesis unfolding len by blast
  qed
qed

lemma zpow_nonpos: "e \<le> 0 \<Longrightarrow> zpow b e = 1 / b ^ nat (- e)"
  using ipow_int [of b "nat (- e)"] ipow_int [of b 0] by (cases "e = 0") (simp_all add: zpow_def)

lemma ilog_of_int:
  assumes "2 \<le> b" and "0 < n"
  shows "ilog b (of_int n) = numlen b n - 1"
proof -
  from numlen_bounds [OF assms]
  have L: "1 \<le> numlen b n" and lo: "b ^ nat (numlen b n - 1) \<le> n" by simp_all
  have one: "numlen b 1 = 1" using assms(1) by (simp add: numlen_small)
  have "zpow (of_int b) (numlen b n - 1) = of_int (b ^ nat (numlen b n - 1))"
    using L by (simp add: zpow_power)
  also have "\<dots> \<le> of_int n" using lo by (simp only: of_int_le_iff)
  finally show ?thesis by (simp add: ilog_def one)
qed

lemma round_half_even_of_int: "round_half_even (of_int m) = m"
  by (simp add: round_half_even_def)

lemma round64_int:
  assumes "0 < n" and "n < 2 ^ 53"
  shows "round64 s (of_int n) = Fin s (of_int n)"
proof -
  define e where "e = numlen 2 n - 1"
  have il: "ilog 2 (of_int n) = e" using assms(1) ilog_of_int [of 2 n] by (simp add: e_def)
  from numlen_bounds [of 2 n] assms(1)
  have e0: "0 \<le> e" and lo: "(2::int) ^ nat e \<le> n" by (simp_all add: e_def)
  from lo assms(2) have "(2::int) ^ nat e < 2 ^ 53" by simp
  then have "nat e < 53" by (simp only: power_strict_increasing_iff)
  then have e52: "e \<le> 52" by simp
  define k where "k = nat (52 - e)"
  have u: "zpow 2 (e - 52) = 1 / 2 ^ k" using e52 zpow_nonpos [of "e - 52" 2] by (simp add: k_def)
  have "(of_int n :: rat) * 2 ^ k = of_int (n * 2 ^ k)" by simp
  then have rhe: "round_half_even (of_int n * 2 ^ k) = n * 2 ^ k"
    by (simp only: round_half_even_of_int)
  have nz: "(of_int n :: rat) \<noteq> 0" using assms(1) by simp
  have mx: "max e (- 1022) = e" using e0 by simp
  show ?thesis
    using nz e52 by (simp add: round64_def il mx Let_def u rhe)
qed

lemma radix_digit_0_9: "list_all (\<lambda>d. radix_digit 10 (digit_char d) = Some d) [0..9]"
  by code_simp

lemma radix_digit_digit_char:
  assumes "0 \<le> d" and "d < 10"
  shows "radix_digit 10 (digit_char d) = Some d"
proof -
  from assms have "d \<in> set [0..9]" by simp
  with radix_digit_0_9 show ?thesis by (simp only: list_all_iff)
qed

lemma digits_value_snoc:
  "digits_value r (ds @ [c]) =
     digits_value r ds * r + (case radix_digit r c of Some d \<Rightarrow> d | None \<Rightarrow> 0)"
  by (simp add: digits_value_def)

lemma digits_value_dec: "0 \<le> n \<Longrightarrow> digits_value 10 (dec n) = n"
proof (induction n rule: dec.induct)
  case (1 n)
  show ?case
  proof (cases "n < 10")
    case True
    with 1(2) show ?thesis
      by (subst dec.simps) (simp add: digits_value_def radix_digit_digit_char)
  next
    case False
    from 1(2) have nn: "0 \<le> n div 10" by simp
    have m: "0 \<le> n mod 10" "n mod 10 < 10" by simp_all
    from 1(1) [OF False nn] have ih: "digits_value 10 (dec (n div 10)) = n div 10" .
    have "dec n = dec (n div 10) @ [digit_char (n mod 10)]"
      using False by (subst dec.simps) simp
    then show ?thesis
      by (simp add: digits_value_snoc ih radix_digit_digit_char [OF m])
  qed
qed

lemma digits_value_zeros:
  "digits_value 10 (ds @ replicate j (CHR ''0'')) = digits_value 10 ds * 10 ^ j"
proof (induction j)
  case 0
  then show ?case by simp
next
  case (Suc j)
  have z: "radix_digit 10 (CHR ''0'') = Some 0" by code_simp
  have "ds @ replicate (Suc j) (CHR ''0'') = (ds @ replicate j (CHR ''0'')) @ [CHR ''0'']"
    by (simp add: replicate_append_same)
  then show ?case by (simp only: digits_value_snoc Suc z) simp
qed

lemma char_facts:
  "list_all (\<lambda>c. is_digit c \<longrightarrow>
      \<not> is_ws c \<and> c \<noteq> CHR ''-'' \<and> c \<noteq> CHR ''+'' \<and> c \<noteq> CHR ''I'') (enum_class.enum :: char list)"
  by code_simp

lemma digit_char_facts:
  assumes "is_digit c"
  shows "\<not> is_ws c" "c \<noteq> CHR ''-''" "c \<noteq> CHR ''+''" "c \<noteq> CHR ''I''"
proof -
  have "c \<in> set (enum_class.enum :: char list)" by (simp add: enum_UNIV)
  with char_facts assms show "\<not> is_ws c" "c \<noteq> CHR ''-''" "c \<noteq> CHR ''+''" "c \<noteq> CHR ''I''"
    by (simp_all only: list_all_iff) blast+
qed

lemma digits_prefix:
  assumes "list_all is_digit ds"
  shows "takeWhile is_digit ds = ds" and "dropWhile is_digit ds = []"
  using assms by (simp_all add: list_all_iff)

lemma parseFloat_string_digits:
  assumes ne: "ds \<noteq> []" and dg: "list_all is_digit ds"
  shows "parseFloat_string ds = round64 False (of_int (digits_value 10 ds))"
proof -
  obtain c r where ds: "ds = c # r" using ne by (cases ds) auto
  with dg have "is_digit c" by simp
  note c = digit_char_facts [OF this]
  have dw: "dropWhile is_ws ds = ds" using c by (simp add: ds)
  have sd: "scan_decimal ds = scan_unsigned False ds"
    using c by (simp add: scan_decimal_def ds)
  have inf: "take 8 ds \<noteq> ''Infinity''" using c by (simp add: ds)
  have z: "zpow 10 0 = 1" using zpow_power [of 0 10] by simp
  show ?thesis
    using ne inf
    by (simp add: parseFloat_string_def dw sd scan_unsigned_def digits_prefix [OF dg]
        scan_exponent_def z)
qed

lemma parseInt_string_digits:
  assumes ne: "ds \<noteq> []" and dg: "list_all is_digit ds"
  shows "parseInt_string ds 10 = round64 False (of_int (digits_value 10 ds))"
proof -
  obtain c r where ds: "ds = c # r" using ne by (cases ds) auto
  with dg have "is_digit c" by simp
  note c = digit_char_facts [OF this]
  have dw: "dropWhile is_ws ds = ds" using c by (simp add: ds)
  have sign: "(case ds of [] \<Rightarrow> (False, ds)
               | c # r \<Rightarrow> if c = CHR ''-'' then (True, r)
                          else if c = CHR ''+'' then (False, r) else (False, ds)) = (False, ds)"
    using c by (simp add: ds)
  have tw: "takeWhile (\<lambda>c. radix_digit 10 c \<noteq> None) ds = ds"
    using digits_prefix(1) [OF dg] by (simp add: is_digit_def [abs_def])
  then have tw': "takeWhile (\<lambda>c. \<exists>y. radix_digit 10 c = Some y) ds = ds" by simp
  show ?thesis
    unfolding parseInt_string_def dw sign Let_def prod.case using ne by (simp add: tw')
qed

lemma shortest_int:
  fixes n L k :: int
  assumes n: "0 < n" "2 * n < 2 ^ 53"
      and L: "10 ^ nat (L - 1) \<le> n" "L \<le> 16"
      and k: "1 \<le> k" "k \<le> L"
  shows "\<exists>s k'. shortest (of_int n) L k = (s, k') \<and> k \<le> k' \<and> k' \<le> L \<and> 0 < s
           \<and> s * 10 ^ nat (L - k') = n"
  using k
proof (induction "nat (L - k)" arbitrary: k rule: less_induct)
  case less
  define P :: int where "P = 10 ^ nat (L - k)"
  define lo where "lo = n div P"
  have Ppos: "0 < P" by (simp add: P_def)
  have "(10::int) ^ nat (L - k) \<le> 10 ^ nat (L - 1)"
    using less.prems by (intro power_increasing) simp_all
  from this L(1) have Pn: "P \<le> n" unfolding P_def by (rule order_trans)
  have lo_pos: "0 < lo" using Pn Ppos by (simp add: lo_def pos_imp_zdiv_pos_iff)
  have split: "n = P * lo + n mod P" by (simp add: lo_def)
  have m0: "0 \<le> n mod P" and m1: "n mod P < P" using Ppos by simp_all
  have expand: "lo * P = P * lo" "(lo + 1) * P = P * lo + P" by (simp_all add: algebra_simps)
  have lo_le: "lo * P \<le> n" using split m0 unfolding expand by linarith
  have hi_gt: "n < (lo + 1) * P" using split m1 unfolding expand by linarith
  have hi_small: "(lo + 1) * P < 2 ^ 53"
    using lo_le Pn n(2) unfolding expand by linarith
  have lo_small: "lo * P < 2 ^ 53" using lo_le n by linarith
  have sc: "zpow 10 (L - k) = of_int P"
    using less.prems by (simp add: zpow_power P_def)
  have fl: "\<lfloor>(of_int n :: rat) / of_int P\<rfloor> = lo"
    by (simp add: lo_def floor_divide_of_int_eq)
  have r_lo: "round64 False (of_int lo * of_int P) = Fin False (of_int (lo * P))"
    using round64_int [of "lo * P" False] lo_pos Ppos lo_small by simp
  have r_hi: "round64 False (of_int (lo + 1) * of_int P) = Fin False (of_int ((lo + 1) * P))"
    using round64_int [of "(lo + 1) * P" False] lo_pos Ppos hi_small by simp
  have oklo: "(round64 False (of_int lo * of_int P) = Fin False (of_int n)) = (lo * P = n)"
    unfolding r_lo by (simp del: of_int_mult)
  have okhi: "(round64 False (of_int (lo + 1) * of_int P) = Fin False (of_int n)) = False"
    unfolding r_hi using hi_gt by (simp del: of_int_mult)
  have step: "shortest (of_int n) L k =
                (if lo * P = n then (lo, k)
                 else if 17 \<le> k then (lo, k) else shortest (of_int n) L (k + 1))"
    by (subst shortest.simps) (simp only: Let_def sc fl oklo okhi, simp)
  show ?case
  proof (cases "lo * P = n")
    case True
    then show ?thesis using step lo_pos less.prems by (simp add: P_def)
  next
    case False
    have "k \<noteq> L"
    proof
      assume "k = L"
      then have "P = 1" by (simp add: P_def)
      then have "lo * P = n" by (simp add: lo_def)
      with False show False by simp
    qed
    with less.prems have k1: "1 \<le> k + 1" "k + 1 \<le> L" by simp_all
    then have "nat (L - (k + 1)) < nat (L - k)" by simp
    from less.hyps [OF this k1]
    obtain s k' where "shortest (of_int n) L (k + 1) = (s, k')" "k + 1 \<le> k'" "k' \<le> L"
      "0 < s" "s * 10 ^ nat (L - k') = n" by blast
    moreover have "\<not> 17 \<le> k" using less.prems L(2) by simp
    ultimately show ?thesis using step False by simp
  qed
qed

lemma num_to_string_int:
  assumes "0 < n" and "n < 10 ^ 15"
  shows "\<exists>s j. num_to_string (Fin False (of_int n)) = dec s @ replicate j (CHR ''0'')
           \<and> 0 < s \<and> s * 10 ^ j = n"
proof -
  define L where "L = numlen 10 n"
  from numlen_bounds [of 10 n] assms(1)
  have L1: "1 \<le> L" and lo: "10 ^ nat (L - 1) \<le> n" and hi: "n < 10 ^ nat L"
    by (simp_all add: L_def)
  from lo assms(2) have "(10::int) ^ nat (L - 1) < 10 ^ 15" by simp
  then have "nat (L - 1) < 15" by (simp only: power_strict_increasing_iff)
  then have L16: "L \<le> 16" by simp
  have n53: "2 * n < 2 ^ 53" using assms(2) by simp
  have il: "ilog 10 (of_int n) + 1 = L" using assms(1) ilog_of_int [of 10 n] by (simp add: L_def)
  have "(1::int) \<le> 1" by simp
  from shortest_int [OF assms(1) n53 lo L16 this L1]
  obtain s k where sh: "shortest (of_int n) L 1 = (s, k)" and k1: "1 \<le> k" and kL: "k \<le> L"
    and s0: "0 < s" and sn: "s * 10 ^ nat (L - k) = n" by auto
  have "nat L = nat k + nat (L - k)" using k1 kL by simp
  then have "(10::int) ^ nat L = 10 ^ nat k * 10 ^ nat (L - k)" by (simp add: power_add)
  with hi sn have "s * 10 ^ nat (L - k) < 10 ^ nat k * 10 ^ nat (L - k)" by simp
  then have sk: "s \<noteq> 10 ^ nat k" by auto
  have "pos_to_string (of_int n) = dec s @ replicate (nat (L - k)) (CHR ''0'')"
    using sk kL L16 by (simp add: pos_to_string_def il sh Let_def)
  moreover have "(of_int n :: rat) \<noteq> 0" using assms(1) by simp
  ultimately have "num_to_string (Fin False (of_int n)) = dec s @ replicate (nat (L - k)) (CHR ''0'')"
    by simp
  with s0 sn show ?thesis by blast
qed

lemma whole_number_roundtrip:
  assumes "0 < n" and "n < 10 ^ 15"
  shows "parseFloat (JNum (Fin False (of_int n))) = Fin False (of_int n)"
    and "parseInt (JNum (Fin False (of_int n))) 10 = Fin False (of_int n)"
proof -
  from num_to_string_int [OF assms]
  obtain s j where str: "num_to_string (Fin False (of_int n)) = dec s @ replicate j (CHR ''0'')"
    and s0: "0 < s" and sn: "s * 10 ^ j = n" by blast
  define ds where "ds = dec s @ replicate j (CHR ''0'')"
  have zero: "is_digit (CHR ''0'')" by code_simp
  have ne: "ds \<noteq> []" using dec_digits [of s] by (simp add: ds_def)
  have dg: "list_all is_digit ds"
    using dec_digits [of s] zero by (auto simp: ds_def list_all_iff)
  have val: "digits_value 10 ds = n"
    using s0 sn by (simp add: ds_def digits_value_zeros digits_value_dec)
  have n53: "n < 2 ^ 53" using assms(2) by simp
  have ts: "ToString (JNum (Fin False (of_int n))) = ds"
    using str by (simp only: ToString.simps ds_def)
  show "parseFloat (JNum (Fin False (of_int n))) = Fin False (of_int n)"
    unfolding parseFloat_def ts
    using parseFloat_string_digits [OF ne dg] round64_int [OF assms(1) n53]
    by (simp add: val)
  show "parseInt (JNum (Fin False (of_int n))) 10 = Fin False (of_int n)"
    unfolding parseInt_def ts
    using parseInt_string_digits [OF ne dg] round64_int [OF assms(1) n53]
    by (simp add: val)
qed

section \<open>Every double converts to itself\<close>

text \<open>
  \<open>Number::toString\<close> writes the shortest decimal that rounds to the double. The search
  for its digits ends at seventeen digits at the latest, since decimals of seventeen
  digits lie closer together than the doubles around them; so the decimal that is written
  always rounds to the double, and \<^verbatim>\<open>parseFloat\<close>, which reads the decimal and rounds
  it, returns the double. \<^verbatim>\<open>parseInt\<close> stops at the decimal point: for a double
  between 1 and 60 it returns the whole part.
\<close>

subsection \<open>Powers and logarithms\<close>

lemma zpow_powi: "zpow b e = b powi e"
proof (cases "0 \<le> e")
  case True
  then show ?thesis by (simp add: zpow_power power_int_def)
next
  case False
  then have "e \<le> 0" by simp
  from zpow_nonpos [OF this] False show ?thesis
    by (simp add: power_int_def inverse_eq_divide power_one_over)
qed

lemma powi_pos: "(0::rat) < 2 powi e" "(0::rat) < 10 powi e"
  by (simp_all add: zero_less_power_int)

lemma powi_unique:
  fixes b :: rat
  assumes b: "1 < b"
      and a: "b powi e \<le> q" "q < b powi (e + 1)"
      and c: "b powi f \<le> q" "q < b powi (f + 1)"
  shows "e = f"
proof (rule ccontr)
  assume "e \<noteq> f"
  then consider "e + 1 \<le> f" | "f + 1 \<le> e" by linarith
  then show False
  proof cases
    case 1
    then have "b powi (e + 1) \<le> b powi f" using b by (intro power_int_increasing) simp_all
    with a(2) c(1) show False by linarith
  next
    case 2
    then have "b powi (f + 1) \<le> b powi e" using b by (intro power_int_increasing) simp_all
    with a(1) c(2) show False by linarith
  qed
qed

lemma ilog_bounds:
  assumes b: "2 \<le> b" and q: "0 < q"
  shows "of_int b powi (ilog b q) \<le> q \<and> q < of_int b powi (ilog b q + 1)"
proof -
  obtain n d where qd: "quotient_of q = (n, d)" by (cases "quotient_of q") auto
  from quotient_of_denom_pos [OF qd] have d: "0 < d" .
  from quotient_of_div [OF qd] have qeq: "q = of_int n / of_int d" .
  with q d have n: "0 < n" by (simp add: zero_less_divide_iff)
  define B :: rat where "B = of_int b"
  have B1: "1 < B" "1 \<le> B" "0 < B" "B \<noteq> 0" using b by (simp_all add: B_def)
  define ln where "ln = numlen b n"
  define ld where "ld = numlen b d"
  from numlen_bounds [OF b n] have ln: "1 \<le> ln" "b ^ nat (ln - 1) \<le> n" "n < b ^ nat ln"
    by (simp_all add: ln_def)
  from numlen_bounds [OF b d] have ld: "1 \<le> ld" "b ^ nat (ld - 1) \<le> d" "d < b ^ nat ld"
    by (simp_all add: ld_def)
  have conv: "\<And>k::int. 0 \<le> k \<Longrightarrow> (of_int (b ^ nat k) :: rat) = B powi k"
    by (simp add: B_def power_int_def)
  have n_lo: "B powi (ln - 1) \<le> of_int n"
    using ln(1,2) conv [of "ln - 1"] by (metis diff_ge_0_iff_ge of_int_le_iff)
  have n_hi: "of_int n < B powi ln"
    using ln(1,3) conv [of ln] by (metis of_int_less_iff order_trans zero_le_one)
  have d_lo: "B powi (ld - 1) \<le> of_int d"
    using ld(1,2) conv [of "ld - 1"] by (metis diff_ge_0_iff_ge of_int_le_iff)
  have d_hi: "of_int d < B powi ld"
    using ld(1,3) conv [of ld] by (metis of_int_less_iff order_trans zero_le_one)
  have dpos: "(0::rat) < of_int d" using d by simp
  define e where "e = ln - ld"
  have upper: "q < B powi (e + 1)"
  proof -
    have "B powi (e + 1) * of_int d \<ge> B powi (e + 1) * B powi (ld - 1)"
      using d_lo B1 by (simp add: zero_less_power_int)
    moreover have "B powi (e + 1) * B powi (ld - 1) = B powi ln"
      using B1 by (simp add: power_int_add [symmetric] e_def)
    ultimately have "of_int n < B powi (e + 1) * of_int d" using n_hi by linarith
    then show ?thesis using dpos by (simp add: qeq pos_divide_less_eq)
  qed
  have lower: "B powi (e - 1) < q"
  proof -
    have "B powi (e - 1) * of_int d < B powi (e - 1) * B powi ld"
      using d_hi B1 by (simp add: zero_less_power_int)
    moreover have "B powi (e - 1) * B powi ld = B powi (ln - 1)"
      using B1 by (simp add: power_int_add [symmetric] e_def)
    ultimately have "B powi (e - 1) * of_int d < of_int n" using n_lo by linarith
    then show ?thesis using dpos by (simp add: qeq pos_less_divide_eq)
  qed
  have il: "ilog b q = (if B powi e \<le> q then e else e - 1)"
    by (simp add: ilog_def qd Let_def zpow_powi e_def ln_def ld_def B_def)
  show ?thesis
  proof (cases "B powi e \<le> q")
    case True
    with il upper show ?thesis by (simp add: B_def)
  next
    case False
    with il lower show ?thesis by (simp add: B_def)
  qed
qed

lemma ilog_unique:
  assumes b: "2 \<le> b" and lo: "of_int b powi e \<le> q" and hi: "q < of_int b powi (e + 1)"
  shows "ilog b q = e"
proof -
  have B: "(1::rat) < of_int b" using b by simp
  have "(0::rat) < of_int b powi e" using b by (simp add: zero_less_power_int)
  with lo have q: "0 < q" by linarith
  from ilog_bounds [OF b q] powi_unique [OF B _ _ lo hi] show ?thesis by blast
qed

subsection \<open>Rounding to the nearest double\<close>

lemma rhe_near:
  assumes "\<bar>q - of_int m\<bar> < 1 / 2"
  shows "round_half_even q = m"
proof -
  consider "of_int m \<le> q" | "q < of_int m" by linarith
  then show ?thesis
  proof cases
    case 1
    with assms have "q < of_int m + 1" by linarith
    with 1 have f: "\<lfloor>q\<rfloor> = m" by linarith
    with assms 1 show ?thesis by (simp add: round_half_even_def Let_def)
  next
    case 2
    with assms have "of_int m - 1 \<le> q" by linarith
    with 2 have f: "\<lfloor>q\<rfloor> = m - 1" by linarith
    from assms 2 have "1 / 2 < q - of_int (m - 1)" by simp
    with f show ?thesis by (simp add: round_half_even_def Let_def)
  qed
qed

lemma rhe_le:
  assumes "q \<le> of_int m"
  shows "round_half_even q \<le> m"
proof -
  have fl: "\<lfloor>q\<rfloor> \<le> m" using assms by (simp add: floor_le_iff)
  show ?thesis
  proof (cases "\<lfloor>q\<rfloor> = m")
    case True
    then have "of_int m \<le> q" by (metis of_int_floor_le)
    with assms have "q = of_int m" by simp
    then show ?thesis by (simp add: round_half_even_of_int)
  next
    case False
    with fl have "\<lfloor>q\<rfloor> + 1 \<le> m" by simp
    then show ?thesis by (simp add: round_half_even_def Let_def)
  qed
qed

lemma rhe_ge:
  assumes "of_int m \<le> q"
  shows "m \<le> round_half_even q"
proof -
  have "m \<le> \<lfloor>q\<rfloor>" using assms by (simp add: le_floor_iff)
  then show ?thesis by (simp add: round_half_even_def Let_def)
qed

lemma round64_unfold:
  assumes "0 < q"
  shows "round64 s q =
     (let e = max (ilog 2 q) (- 1022);
          n = round_half_even (q / 2 powi (e - 52))
      in if 1023 < e \<or> (e = 1023 \<and> 9007199254740992 \<le> n) then Infinity s
         else Fin s (of_int n * 2 powi (e - 52)))"
  using assms by (simp add: round64_def Let_def zpow_powi)

lemma powi_2_shift:
  "(2::rat) powi (e + 1) = 2 ^ 53 * 2 powi (e - 52)"
  "(2::rat) powi e = 2 ^ 52 * 2 powi (e - 52)"
  "(2::rat) powi (e - 1) = 2 ^ 51 * 2 powi (e - 52)"
  "(2::rat) powi (e - 1 - 52) = 2 powi (e - 52) / 2"
proof -
  show "(2::rat) powi (e + 1) = 2 ^ 53 * 2 powi (e - 52)"
    using power_int_add [of "2::rat" 53 "e - 52"] by (simp add: add.commute)
  show "(2::rat) powi e = 2 ^ 52 * 2 powi (e - 52)"
    using power_int_add [of "2::rat" 52 "e - 52"] by simp
  show "(2::rat) powi (e - 1) = 2 ^ 51 * 2 powi (e - 52)"
    using power_int_add [of "2::rat" 51 "e - 52"] by simp
  show "(2::rat) powi (e - 1 - 52) = 2 powi (e - 52) / 2"
    using power_int_add [of "2::rat" "- 1" "e - 52"]
    by (simp add: power_int_minus inverse_eq_divide)
qed

lemma round64_in_binade:
  assumes e: "- 1022 \<le> e" "e \<le> 1023"
      and c: "0 < c" "c < 2 powi (e + 1)" "e = - 1022 \<or> 2 powi e \<le> c"
      and n: "\<bar>c / 2 powi (e - 52) - of_int n\<bar> < 1 / 2"
      and o: "e < 1023 \<or> n < 2 ^ 53"
  shows "round64 s c = Fin s (of_int n * 2 powi (e - 52))"
proof -
  have ex: "max (ilog 2 c) (- 1022) = e"
  proof (cases "2 powi e \<le> c")
    case True
    with c(2) have "ilog 2 c = e" using ilog_unique [of 2 e c] by simp
    with e(1) show ?thesis by simp
  next
    case False
    with c(3) have e': "e = - 1022" by simp
    from ilog_bounds [of 2 c] c(1) have "2 powi (ilog 2 c) \<le> c" by simp
    with False have "(2::rat) powi (ilog 2 c) < 2 powi e" by linarith
    then have "ilog 2 c < e"
      by (metis less_le_not_le linorder_not_less one_le_numeral power_int_increasing)
    with e' show ?thesis by simp
  qed
  have r: "round_half_even (c / 2 powi (e - 52)) = n" using n by (rule rhe_near)
  from o have "\<not> (1023 < e \<or> (e = 1023 \<and> 9007199254740992 \<le> n))" using e(2) by auto
  then show ?thesis
    unfolding round64_unfold [OF c(1)] ex Let_def r by simp
qed

lemma double_decompose:
  assumes x: "0 < x" and d: "round64 False x = Fin False x"
  obtains e n where "- 1022 \<le> e" and "e \<le> 1023" and "x = of_int n * 2 powi (e - 52)"
    and "0 < n" and "n < 2 ^ 53" and "e = - 1022 \<or> 2 ^ 52 \<le> n"
proof -
  define e where "e = max (ilog 2 x) (- 1022)"
  define u :: rat where "u = 2 powi (e - 52)"
  define n where "n = round_half_even (x / u)"
  have u: "0 < u" by (simp add: u_def zero_less_power_int)
  from d have nov: "\<not> (1023 < e \<or> (e = 1023 \<and> 9007199254740992 \<le> n))"
    and xeq: "x = of_int n * u"
    unfolding round64_unfold [OF x] Let_def e_def [symmetric] u_def [symmetric] n_def [symmetric]
    by (auto split: if_splits)
  have e1: "- 1022 \<le> e" by (simp add: e_def)
  have e2: "e \<le> 1023" using nov by auto
  from x xeq u have "0 < (of_int n :: rat)" by (simp add: zero_less_mult_iff)
  then have n0: "0 < n" by simp
  from ilog_bounds [of 2 x] x have b: "2 powi (ilog 2 x) \<le> x" "x < 2 powi (ilog 2 x + 1)"
    by simp_all
  have "ilog 2 x + 1 \<le> e + 1" by (simp add: e_def)
  then have "(2::rat) powi (ilog 2 x + 1) \<le> 2 powi (e + 1)"
    by (intro power_int_increasing) simp_all
  with b(2) have "x < 2 ^ 53 * u" unfolding u_def powi_2_shift(1) [symmetric] by linarith
  then have "(of_int n :: rat) < 2 ^ 53" using u by (simp add: xeq)
  then have "(of_int n :: rat) < of_int (2 ^ 53)" by simp
  then have n1: "n < 2 ^ 53" by (simp only: of_int_less_iff)
  have n2: "e = - 1022 \<or> 2 ^ 52 \<le> n"
  proof (cases "e = - 1022")
    case False
    then have "e = ilog 2 x" by (simp add: e_def max_def split: if_splits)
    with b(1) have "2 ^ 52 * u \<le> x" unfolding u_def powi_2_shift(2) [symmetric] by simp
    then have "(2 ^ 52 :: rat) \<le> of_int n" using u by (simp add: xeq)
    then have "(of_int (2 ^ 52) :: rat) \<le> of_int n" by simp
    then have "2 ^ 52 \<le> n" by (simp only: of_int_le_iff)
    then show ?thesis by simp
  qed simp
  from that [OF e1 e2 _ n0 n1 n2] xeq show ?thesis by (simp add: u_def)
qed

lemma round64_near:
  assumes x: "0 < x" and d: "round64 False x = Fin False x"
      and c: "\<bar>c - x\<bar> < x / 2 ^ 54"
  shows "round64 False c = Fin False x"
proof -
  from x d obtain e n where e: "- 1022 \<le> e" "e \<le> 1023"
    and xeq: "x = of_int n * 2 powi (e - 52)"
    and n: "0 < n" "n < 2 ^ 53" "e = - 1022 \<or> 2 ^ 52 \<le> n"
    by (rule double_decompose)
  define u :: rat where "u = 2 powi (e - 52)"
  have u: "0 < u" by (simp add: u_def zero_less_power_int)
  have xu: "x = of_int n * u" by (simp add: xeq u_def)
  note sh = powi_2_shift [of e, folded u_def]
  have nr: "(of_int n :: rat) \<le> 2 ^ 53 - 1"
  proof -
    from n(2) have "n \<le> 2 ^ 53 - 1" by simp
    then have "(of_int n :: rat) \<le> of_int (2 ^ 53 - 1)" by (simp only: of_int_le_iff)
    then show ?thesis by simp
  qed
  have xlt: "x \<le> (2 ^ 53 - 1) * u" using nr u by (simp add: xu)
  then have half: "x / 2 ^ 54 < u / 2" using u by simp
  have "x / 2 ^ 54 \<le> x" using x by (simp add: field_simps)
  with c have cpos: "0 < c" by linarith
  have near: "\<bar>c - x\<bar> < u / 2" using c half by linarith
  have cn: "\<bar>c / u - of_int n\<bar> < 1 / 2"
  proof -
    have "c / u - of_int n = (c - x) / u" using u by (simp add: xu field_simps)
    then have "\<bar>c / u - of_int n\<bar> = \<bar>c - x\<bar> / u" using u by (simp add: abs_divide)
    also have "\<dots> < 1 / 2" using near u by (simp add: field_simps)
    finally show ?thesis .
  qed
  have cup: "c < 2 powi (e + 1)"
  proof -
    have "c < x + u / 2" using near by linarith
    also have "\<dots> \<le> (2 ^ 53 - 1) * u + u / 2" using xlt by linarith
    also have "\<dots> < 2 ^ 53 * u" using u by simp
    finally show ?thesis by (simp only: sh)
  qed
  show ?thesis
  proof (cases "e = - 1022 \<or> 2 powi e \<le> c")
    case True
    from round64_in_binade [OF e cpos cup True, of n False, folded u_def] cn n(2)
    show ?thesis by (simp add: u_def [symmetric] xu)
  next
    case False
    then have e': "e \<noteq> - 1022" and clt: "c < 2 ^ 52 * u"
      unfolding sh by simp_all
    with n(3) have "2 ^ 52 \<le> n" by simp
    have "n = 2 ^ 52"
    proof (rule ccontr)
      assume "n \<noteq> 2 ^ 52"
      with \<open>2 ^ 52 \<le> n\<close> have "2 ^ 52 + 1 \<le> n" by simp
      then have "(of_int (2 ^ 52 + 1) :: rat) \<le> of_int n" by (simp only: of_int_le_iff)
      then have "(2 ^ 52 + 1) * u \<le> x" using u by (simp add: xu)
      then have "2 ^ 52 * u + u \<le> x" by (simp add: algebra_simps)
      with near clt u show False by linarith
    qed
    then have x52: "x = 2 ^ 52 * u" by (simp add: xu)
    have e1: "- 1022 \<le> e - 1" "e - 1 \<le> 1023" using e e' by simp_all
    have c1: "c < 2 powi (e - 1 + 1)"
      using clt by (simp add: sh)
    have "x / 2 ^ 54 \<le> x / 2" using x by (simp add: field_simps)
    with c have "x / 2 < c" by linarith
    moreover have "x / 2 = 2 ^ 51 * u" by (simp add: x52)
    ultimately have "2 ^ 51 * u \<le> c" by simp
    then have c2: "e - 1 = - 1022 \<or> 2 powi (e - 1) \<le> c"
      by (simp add: sh)
    have c3: "\<bar>c / 2 powi (e - 1 - 52) - of_int (2 ^ 53)\<bar> < 1 / 2"
    proof -
      have q: "x / 2 ^ 54 = u / 4" by (simp add: x52)
      define t where "t = (c - x) / u"
      have "\<bar>t\<bar> = \<bar>c - x\<bar> / u" using u by (simp add: t_def abs_divide)
      also have "\<dots> < 1 / 4" using c u unfolding q by (simp add: field_simps)
      finally have t: "\<bar>t\<bar> < 1 / 4" .
      have "c / (u / 2) - 2 ^ 53 = 2 * t" using u by (simp add: x52 t_def field_simps)
      then have "\<bar>c / (u / 2) - 2 ^ 53\<bar> = 2 * \<bar>t\<bar>" by (simp add: abs_mult)
      also have "\<dots> < 1 / 2" using t by simp
      finally show ?thesis unfolding sh(4) by simp
    qed
    have o: "e - 1 < 1023 \<or> (2 ^ 53 :: int) < 2 ^ 53" using e(2) by simp
    from round64_in_binade [OF e1 cpos c1 c2 c3 o, of False, unfolded sh(4)]
    show ?thesis by (simp add: x52)
  qed
qed

subsection \<open>The digits of a double\<close>

lemma shortest_step:
  "shortest x n k =
     (let sc = 10 powi (n - k);
          lo = \<lfloor>x / sc\<rfloor>;
          oklo = (round64 False (of_int lo * sc) = Fin False x);
          okhi = (round64 False (of_int (lo + 1) * sc) = Fin False x)
      in if oklo \<and> okhi then
           (if of_int (lo + 1) * sc - x < x - of_int lo * sc
               \<or> (of_int (lo + 1) * sc - x = x - of_int lo * sc \<and> odd lo)
            then (lo + 1, k) else (lo, k))
         else if oklo then (lo, k)
         else if okhi then (lo + 1, k)
         else if 17 \<le> k then (lo, k)
         else shortest x n (k + 1))"
  by (subst shortest.simps) (simp only: Let_def zpow_powi)

lemma seventeen_digits:
  assumes x: "0 < x" and d: "round64 False x = Fin False x"
      and n: "10 powi (n - 1) \<le> x"
  shows "round64 False (of_int \<lfloor>x / 10 powi (n - 17)\<rfloor> * 10 powi (n - 17)) = Fin False x
         \<or> round64 False (of_int (\<lfloor>x / 10 powi (n - 17)\<rfloor> + 1) * 10 powi (n - 17)) = Fin False x"
proof -
  define sc :: rat where "sc = 10 powi (n - 17)"
  have sc: "0 < sc" by (simp add: sc_def zero_less_power_int)
  have "(10::rat) powi (n - 1) = 10 powi 16 * 10 powi (n - 17)"
    using power_int_add [of "10::rat" 16 "n - 17"] by (simp add: add.commute)
  then have "10 ^ 16 * sc \<le> x" using n by (simp add: sc_def)
  then have scx: "sc \<le> x / 10 ^ 16" by (simp add: field_simps)
  from scx have "sc / 2 \<le> x / 10 ^ 16 / 2" by (rule divide_right_mono) simp
  also have "\<dots> < x / 2 ^ 54" using x by (simp add: field_simps)
  finally have bound: "sc / 2 < x / 2 ^ 54" .
  define y where "y = x / sc"
  define lo where "lo = \<lfloor>y\<rfloor>"
  have xy: "x = y * sc" using sc by (simp add: y_def)
  have f0: "of_int lo \<le> y" and f1: "y < of_int lo + 1" unfolding lo_def by linarith+
  show ?thesis
  proof (cases "y - of_int lo \<le> 1 / 2")
    case True
    have e: "x - of_int lo * sc = (y - of_int lo) * sc" by (simp add: xy algebra_simps)
    have nn: "0 \<le> (y - of_int lo) * sc" using f0 sc by simp
    have "\<bar>of_int lo * sc - x\<bar> = \<bar>x - of_int lo * sc\<bar>" by (rule abs_minus_commute)
    also have "\<dots> = (y - of_int lo) * sc" unfolding e using nn by (rule abs_of_nonneg)
    also have "\<dots> \<le> 1 / 2 * sc" using True sc by (intro mult_right_mono) simp_all
    finally have "\<bar>of_int lo * sc - x\<bar> < x / 2 ^ 54" using bound by simp
    from round64_near [OF x d this] show ?thesis
      by (simp add: lo_def y_def sc_def)
  next
    case False
    have e: "of_int (lo + 1) * sc - x = (of_int lo + 1 - y) * sc"
      by (simp add: xy algebra_simps)
    have nn: "0 \<le> (of_int lo + 1 - y) * sc" using f1 sc by simp
    have "\<bar>of_int (lo + 1) * sc - x\<bar> = (of_int lo + 1 - y) * sc"
      unfolding e using nn by (rule abs_of_nonneg)
    also have "\<dots> \<le> 1 / 2 * sc" using False sc by (intro mult_right_mono) simp_all
    finally have "\<bar>of_int (lo + 1) * sc - x\<bar> < x / 2 ^ 54" using bound by simp
    from round64_near [OF x d this] show ?thesis
      by (simp add: lo_def y_def sc_def)
  qed
qed

lemma shortest_valid:
  assumes x: "0 < x" and d: "round64 False x = Fin False x"
      and n: "10 powi (n - 1) \<le> x" "x < 10 powi n"
      and k: "1 \<le> k" "k \<le> 17"
  shows "\<exists>s k'. shortest x n k = (s, k') \<and> k \<le> k' \<and> k' \<le> 17
           \<and> 10 ^ nat (k' - 1) \<le> s \<and> s \<le> 10 ^ nat k'
           \<and> round64 False (of_int s * 10 powi (n - k')) = Fin False x"
  using k
proof (induction "nat (17 - k)" arbitrary: k rule: less_induct)
  case less
  define sc :: rat where "sc = 10 powi (n - k)"
  define lo where "lo = \<lfloor>x / sc\<rfloor>"
  have sc: "0 < sc" by (simp add: sc_def zero_less_power_int)
  have p1: "(10::rat) powi (n - 1) = 10 powi (k - 1) * sc"
    using power_int_add [of "10::rat" "k - 1" "n - k"] by (simp add: sc_def)
  have p2: "(10::rat) powi n = 10 powi k * sc"
    using power_int_add [of "10::rat" k "n - k"] by (simp add: sc_def)
  have k1: "(10::rat) powi (k - 1) = of_int (10 ^ nat (k - 1))"
    using less.prems by (simp add: power_int_def)
  have k2: "(10::rat) powi k = of_int (10 ^ nat k)"
    using less.prems by (simp add: power_int_def)
  have "of_int (10 ^ nat (k - 1)) \<le> x / sc"
    using n(1) sc unfolding p1 k1 by (simp add: field_simps)
  then have lo1: "10 ^ nat (k - 1) \<le> lo" unfolding lo_def by (simp only: le_floor_iff)
  have "x / sc < of_int (10 ^ nat k)"
    using n(2) sc unfolding p2 k2 by (simp add: field_simps)
  then have "lo < 10 ^ nat k" unfolding lo_def by (simp only: floor_less_iff)
  then have lo2: "lo + 1 \<le> 10 ^ nat k" by simp
  have lo3: "lo \<le> 10 ^ nat k" using lo2 by simp
  have lo4: "10 ^ nat (k - 1) \<le> lo + 1" using lo1 by simp
  note step = shortest_step [of x n k, unfolded Let_def, folded sc_def, folded lo_def]
  show ?case
  proof (cases "round64 False (of_int lo * sc) = Fin False x
                \<or> round64 False (of_int (lo + 1) * sc) = Fin False x")
    case True
    then consider
      (both) "round64 False (of_int lo * sc) = Fin False x"
             "round64 False (of_int (lo + 1) * sc) = Fin False x"
      | (lo) "round64 False (of_int lo * sc) = Fin False x"
             "round64 False (of_int (lo + 1) * sc) \<noteq> Fin False x"
      | (hi) "round64 False (of_int lo * sc) \<noteq> Fin False x"
             "round64 False (of_int (lo + 1) * sc) = Fin False x"
      by blast
    then show ?thesis
    proof cases
      case both
      then have "shortest x n k = (lo, k) \<or> shortest x n k = (lo + 1, k)"
        unfolding step by simp
      with both lo1 lo2 lo3 lo4 less.prems show ?thesis
        unfolding sc_def by auto
    next
      case lo
      then have "shortest x n k = (lo, k)" unfolding step by simp
      with lo lo1 lo3 less.prems show ?thesis unfolding sc_def by auto
    next
      case hi
      then have "shortest x n k = (lo + 1, k)" unfolding step by simp
      with hi lo2 lo4 less.prems show ?thesis unfolding sc_def by auto
    qed
  next
    case False
    have "k \<noteq> 17"
    proof
      assume "k = 17"
      with seventeen_digits [OF x d n(1)] False show False
        by (simp add: sc_def lo_def)
    qed
    with less.prems have k': "1 \<le> k + 1" "k + 1 \<le> 17" by simp_all
    then have "nat (17 - (k + 1)) < nat (17 - k)" by simp
    from less.hyps [OF this k']
    obtain s k'' where "shortest x n (k + 1) = (s, k'')" "k + 1 \<le> k''" "k'' \<le> 17"
      "10 ^ nat (k'' - 1) \<le> s" "s \<le> 10 ^ nat k''"
      "round64 False (of_int s * 10 powi (n - k'')) = Fin False x" by blast
    moreover have "shortest x n k = shortest x n (k + 1)"
      using False \<open>k \<noteq> 17\<close> less.prems unfolding step by simp
    ultimately show ?thesis by auto
  qed
qed

subsection \<open>Reading digits back\<close>

lemma dec_length:
  assumes "10 ^ k \<le> s" and "s < 10 ^ Suc k"
  shows "length (dec s) = Suc k"
  using assms
proof (induction k arbitrary: s)
  case 0
  then show ?case by (subst dec.simps) simp
next
  case (Suc k)
  have "(10::int) ^ Suc k \<ge> 10" by simp
  with Suc.prems(1) have s10: "\<not> s < 10" by linarith
  have a: "10 ^ k \<le> s div 10"
  proof -
    have "(10::int) ^ k * 10 \<le> s" using Suc.prems(1) by (simp add: mult.commute)
    then show ?thesis by (simp add: zdiv_mono1 [of "10 ^ k * 10" s 10, simplified])
  qed
  have b: "s div 10 < 10 ^ Suc k"
  proof -
    have "s < 10 ^ Suc k * 10" using Suc.prems(2) by (simp add: mult.commute)
    then show ?thesis by (simp add: div_less_iff_less_mult)
  qed
  from Suc.IH [OF a b] s10 show ?case by (subst dec.simps) simp
qed

lemma digits_value_append:
  "digits_value r (a @ b) = digits_value r a * r ^ length b + digits_value r b"
proof (induction b rule: rev_induct)
  case Nil
  then show ?case by (simp add: digits_value_def)
next
  case (snoc c b)
  have "digits_value r (a @ b @ [c]) = digits_value r ((a @ b) @ [c])" by simp
  also have "\<dots> = digits_value r (a @ b) * r
                     + (case radix_digit r c of Some d \<Rightarrow> d | None \<Rightarrow> 0)"
    by (rule digits_value_snoc)
  finally show ?case by (simp add: snoc digits_value_snoc algebra_simps)
qed

lemma digits_value_leading_zeros:
  "digits_value 10 (replicate j (CHR ''0'') @ ds) = digits_value 10 ds"
  using digits_value_zeros [of "[]" j]
  by (simp add: digits_value_append) (simp add: digits_value_def)

lemma digits_value_take_dec:
  assumes "0 \<le> s" and "j \<le> length (dec s)"
  shows "digits_value 10 (take j (dec s)) = s div 10 ^ (length (dec s) - j)"
  using assms
proof (induction s arbitrary: j rule: dec.induct)
  case (1 s)
  show ?case
  proof (cases "j = length (dec s)")
    case True
    then show ?thesis using 1(2) by (simp add: digits_value_dec)
  next
    case False
    with 1(3) have j: "j < length (dec s)" by simp
    show ?thesis
    proof (cases "s < 10")
      case True
      then have d: "dec s = [digit_char s]" by (subst dec.simps) simp
      with j have "j = 0" by simp
      with True 1(2) d show ?thesis by (simp add: digits_value_def)
    next
      case s10: False
      then have d: "dec s = dec (s div 10) @ [digit_char (s mod 10)]"
        by (subst dec.simps) simp
      then have l: "length (dec s) = Suc (length (dec (s div 10)))" by simp
      with j have j': "j \<le> length (dec (s div 10))" by simp
      have nn: "0 \<le> s div 10" using 1(2) by simp
      from 1(1) [OF s10 nn j']
      have "digits_value 10 (take j (dec (s div 10)))
              = s div 10 div 10 ^ (length (dec (s div 10)) - j)" .
      moreover have "take j (dec s) = take j (dec (s div 10))" using j' by (simp add: d)
      moreover have "length (dec s) - j = Suc (length (dec (s div 10)) - j)"
        using j' l by simp
      ultimately show ?thesis by (simp add: zdiv_zmult2_eq)
    qed
  qed
qed

lemma not_digit:
  "\<not> is_digit (CHR ''.'')" "\<not> is_digit (CHR ''e'')" "\<not> is_digit (CHR ''+'')"
  "\<not> is_digit (CHR ''-'')"
  by code_simp+

lemma scan_exponent_Nil: "scan_exponent [] = (0, [])"
  by (simp add: scan_exponent_def)

lemma scan_exponent_e:
  assumes "0 \<le> a"
  shows "scan_exponent (''e'' @ ''-'' @ dec a) = (- a, [])"
    and "scan_exponent (''e'' @ ''+'' @ dec a) = (a, [])"
  using assms dec_digits [of a]
  by (simp_all add: scan_exponent_def digits_prefix digits_value_dec Let_def)

lemma scan_unsigned_integer:
  assumes ip: "ip \<noteq> []" "list_all is_digit ip"
      and r: "r = [] \<or> r = ''e'' @ r'"
  shows "scan_unsigned sg (ip @ r) =
           Some (round64 sg (of_int (digits_value 10 ip) * 10 powi (fst (scan_exponent r))),
                 snd (scan_exponent r))"
proof -
  obtain c t where ipc: "ip = c # t" using ip(1) by (cases ip) auto
  with ip(2) have "is_digit c" by simp
  then have "c \<noteq> CHR ''I''" by (rule digit_char_facts)
  then have inf: "take 8 (ip @ r) \<noteq> ''Infinity''" by (simp add: ipc)
  have ds: "\<And>x. x \<in> set ip \<Longrightarrow> is_digit x" using ip(2) by (simp add: list_all_iff)
  have tw: "takeWhile is_digit (ip @ r) = ip" and dw: "dropWhile is_digit (ip @ r) = r"
    using r ds not_digit(2) by (auto simp: takeWhile_append2 dropWhile_append2)
  have cs: "(case r of [] \<Rightarrow> ([], r)
             | c # r'' \<Rightarrow>
                 if c = CHR ''.'' \<and> (ip \<noteq> [] \<or> takeWhile is_digit r'' \<noteq> [])
                 then (takeWhile is_digit r'', dropWhile is_digit r'') else ([], r)) = ([], r)"
    using r by auto
  show ?thesis
    unfolding scan_unsigned_def tw dw Let_def cs using inf ip(1)
    by (simp add: zpow_powi split: prod.splits)
qed

lemma scan_unsigned_fraction:
  assumes ip: "ip \<noteq> []" "list_all is_digit ip"
      and fp: "fp \<noteq> []" "list_all is_digit fp"
      and r: "r = [] \<or> r = ''e'' @ r'"
  shows "scan_unsigned sg (ip @ ''.'' @ fp @ r) =
           Some (round64 sg (of_int (digits_value 10 (ip @ fp))
                              * 10 powi (fst (scan_exponent r) - int (length fp))),
                 snd (scan_exponent r))"
proof -
  obtain c t where ipc: "ip = c # t" using ip(1) by (cases ip) auto
  with ip(2) have "is_digit c" by simp
  then have "c \<noteq> CHR ''I''" by (rule digit_char_facts)
  then have inf: "take 8 (ip @ ''.'' @ fp @ r) \<noteq> ''Infinity''" by (simp add: ipc)
  have ds: "\<And>x. x \<in> set ip \<Longrightarrow> is_digit x" using ip(2) by (simp add: list_all_iff)
  have fs: "\<And>x. x \<in> set fp \<Longrightarrow> is_digit x" using fp(2) by (simp add: list_all_iff)
  have tw: "takeWhile is_digit (ip @ ''.'' @ fp @ r) = ip"
    and dw: "dropWhile is_digit (ip @ ''.'' @ fp @ r) = ''.'' @ fp @ r"
    using ds not_digit(1) by (auto simp: takeWhile_append2 dropWhile_append2)
  have tw2: "takeWhile is_digit (fp @ r) = fp" and dw2: "dropWhile is_digit (fp @ r) = r"
    using r fs not_digit(2) by (auto simp: takeWhile_append2 dropWhile_append2)
  show ?thesis
    unfolding scan_unsigned_def tw dw Let_def using inf ip(1) fp(1)
    by (simp add: tw2 dw2 zpow_powi split: prod.splits)
qed

lemma parseFloat_string_digit_first:
  assumes "s \<noteq> []" and "is_digit (hd s)"
  shows "parseFloat_string s = (case scan_unsigned False s of Some (v, r) \<Rightarrow> v | None \<Rightarrow> NaN)"
proof -
  obtain c t where s: "s = c # t" using assms(1) by (cases s) auto
  with assms(2) have "is_digit c" by simp
  note c = digit_char_facts [OF this]
  show ?thesis using c by (simp add: parseFloat_string_def scan_decimal_def s)
qed

lemma pos_to_string_cases:
  assumes x: "0 < x" and d: "round64 False x = Fin False x"
  obtains s k n where "1 \<le> k" and "k \<le> 17" and "10 ^ (nat k - 1) \<le> s" and "s < 10 ^ nat k"
    and "round64 False (of_int s * 10 powi (n - k)) = Fin False x"
    and "pos_to_string x =
           (if k \<le> n \<and> n \<le> 21 then dec s @ replicate (nat (n - k)) (CHR ''0'')
            else if 0 < n \<and> n \<le> 21 then take (nat n) (dec s) @ ''.'' @ drop (nat n) (dec s)
            else if - 6 < n \<and> n \<le> 0 then ''0.'' @ replicate (nat (- n)) (CHR ''0'') @ dec s
            else if k = 1
                 then dec s @ ''e'' @ (if n - 1 < 0 then ''-'' else ''+'') @ dec \<bar>n - 1\<bar>
                 else take 1 (dec s) @ ''.'' @ drop 1 (dec s) @ ''e''
                      @ (if n - 1 < 0 then ''-'' else ''+'') @ dec \<bar>n - 1\<bar>)"
proof -
  define n0 where "n0 = ilog 10 x + 1"
  from ilog_bounds [of 10 x] x
  have b: "10 powi (n0 - 1) \<le> x" "x < 10 powi n0" by (simp_all add: n0_def)
  have "(1::int) \<le> 1" "(1::int) \<le> 17" by simp_all
  from shortest_valid [OF x d b this]
  obtain s0 k where sh: "shortest x n0 1 = (s0, k)" and k: "1 \<le> k" "k \<le> 17"
    and s0: "10 ^ nat (k - 1) \<le> s0" "s0 \<le> 10 ^ nat k"
    and v: "round64 False (of_int s0 * 10 powi (n0 - k)) = Fin False x" by blast
  have nk: "nat (k - 1) = nat k - 1" by simp
  show ?thesis
  proof (cases "s0 = 10 ^ nat k")
    case True
    define s where "s = s0 div 10"
    have "nat k = Suc (nat k - 1)" using k by simp
    then have "(10::int) ^ nat k = 10 * 10 ^ (nat k - 1)" by (metis power_Suc)
    with True have s: "s = 10 ^ (nat k - 1)" and s0s: "s0 = 10 * s" by (simp_all add: s_def)
    have s2: "s < 10 ^ nat k" using True s0s s k by simp
    have "n0 + 1 - k = 1 + (n0 - k)" by simp
    then have "(10::rat) powi (n0 + 1 - k) = 10 * 10 powi (n0 - k)"
      using power_int_add [of "10::rat" 1 "n0 - k"] by (simp only:) simp
    then have "of_int s * 10 powi (n0 + 1 - k) = (of_int s0 :: rat) * 10 powi (n0 - k)"
      by (simp add: s0s)
    with v have v': "round64 False (of_int s * 10 powi (n0 + 1 - k)) = Fin False x" by simp
    have str: "pos_to_string x =
           (if k \<le> n0 + 1 \<and> n0 + 1 \<le> 21 then dec s @ replicate (nat (n0 + 1 - k)) (CHR ''0'')
            else if 0 < n0 + 1 \<and> n0 + 1 \<le> 21
                 then take (nat (n0 + 1)) (dec s) @ ''.'' @ drop (nat (n0 + 1)) (dec s)
            else if - 6 < n0 + 1 \<and> n0 + 1 \<le> 0
                 then ''0.'' @ replicate (nat (- (n0 + 1))) (CHR ''0'') @ dec s
            else if k = 1
                 then dec s @ ''e'' @ (if n0 + 1 - 1 < 0 then ''-'' else ''+'')
                      @ dec \<bar>n0 + 1 - 1\<bar>
                 else take 1 (dec s) @ ''.'' @ drop 1 (dec s) @ ''e''
                      @ (if n0 + 1 - 1 < 0 then ''-'' else ''+'') @ dec \<bar>n0 + 1 - 1\<bar>)"
      unfolding pos_to_string_def n0_def [symmetric] Let_def sh prod.case
      using True by (simp add: s_def)
    from that [OF k _ s2 v' str] s show ?thesis by simp
  next
    case False
    with s0(2) have s2: "s0 < 10 ^ nat k" by simp
    have s1: "10 ^ (nat k - 1) \<le> s0" using s0(1) by (simp add: nk)
    have str: "pos_to_string x =
           (if k \<le> n0 \<and> n0 \<le> 21 then dec s0 @ replicate (nat (n0 - k)) (CHR ''0'')
            else if 0 < n0 \<and> n0 \<le> 21
                 then take (nat n0) (dec s0) @ ''.'' @ drop (nat n0) (dec s0)
            else if - 6 < n0 \<and> n0 \<le> 0 then ''0.'' @ replicate (nat (- n0)) (CHR ''0'') @ dec s0
            else if k = 1
                 then dec s0 @ ''e'' @ (if n0 - 1 < 0 then ''-'' else ''+'') @ dec \<bar>n0 - 1\<bar>
                 else take 1 (dec s0) @ ''.'' @ drop 1 (dec s0) @ ''e''
                      @ (if n0 - 1 < 0 then ''-'' else ''+'') @ dec \<bar>n0 - 1\<bar>)"
      unfolding pos_to_string_def n0_def [symmetric] Let_def sh prod.case
      using False by simp
    from that [OF k s1 s2 v str] show ?thesis .
  qed
qed

lemma parseFloat_pos_to_string:
  assumes x: "0 < x" and d: "round64 False x = Fin False x"
  shows "parseFloat_string (pos_to_string x) = Fin False x"
proof -
  from x d obtain s k n where k: "1 \<le> k" "k \<le> 17"
    and s: "10 ^ (nat k - 1) \<le> s" "s < 10 ^ nat k"
    and v: "round64 False (of_int s * 10 powi (n - k)) = Fin False x"
    and str: "pos_to_string x =
           (if k \<le> n \<and> n \<le> 21 then dec s @ replicate (nat (n - k)) (CHR ''0'')
            else if 0 < n \<and> n \<le> 21 then take (nat n) (dec s) @ ''.'' @ drop (nat n) (dec s)
            else if - 6 < n \<and> n \<le> 0 then ''0.'' @ replicate (nat (- n)) (CHR ''0'') @ dec s
            else if k = 1
                 then dec s @ ''e'' @ (if n - 1 < 0 then ''-'' else ''+'') @ dec \<bar>n - 1\<bar>
                 else take 1 (dec s) @ ''.'' @ drop 1 (dec s) @ ''e''
                      @ (if n - 1 < 0 then ''-'' else ''+'') @ dec \<bar>n - 1\<bar>)"
    by (rule pos_to_string_cases)
  define ds where "ds = dec s"
  have "Suc (nat k - 1) = nat k" using k by simp
  with s(2) have "s < 10 ^ Suc (nat k - 1)" by simp
  from dec_length [OF s(1) this] have len: "length ds = nat k" using k by (simp add: ds_def)
  have dg: "list_all is_digit ds" and ne: "ds \<noteq> []" using dec_digits [of s] by (simp_all add: ds_def)
  have "(0::int) < 10 ^ (nat k - 1)" by simp
  with s(1) have s0: "0 < s" by linarith
  have val: "digits_value 10 ds = s" using s0 by (simp add: ds_def digits_value_dec)
  have zero: "is_digit (CHR ''0'')" by code_simp
  have hd: "is_digit (hd ds)" using dg ne by (cases ds) simp_all
  note str' = str [folded ds_def]
  define es where "es = (if n - 1 < 0 then ''-'' else ''+'') @ dec \<bar>n - 1\<bar>"
  have ex: "scan_exponent (''e'' @ es) = (n - 1, [])"
    using scan_exponent_e [of "\<bar>n - 1\<bar>"] by (auto simp: es_def)
  consider (a) "k \<le> n" "n \<le> 21" | (b) "n < k" "0 < n" | (c) "- 6 < n" "n \<le> 0"
    | (d1) "k = 1" "21 < n \<or> n \<le> - 6" | (d2) "k \<noteq> 1" "21 < n \<or> n \<le> - 6"
    using k by linarith
  then show ?thesis
  proof cases
    case a
    then have st: "pos_to_string x = ds @ replicate (nat (n - k)) (CHR ''0'')"
      by (simp add: str')
    have dg': "list_all is_digit (ds @ replicate (nat (n - k)) (CHR ''0''))"
      using dg zero by (auto simp: list_all_iff)
    have "(10::rat) powi (n - k) = 10 ^ nat (n - k)" using a by (simp add: power_int_def)
    then have "of_int (s * 10 ^ nat (n - k)) = (of_int s :: rat) * 10 powi (n - k)" by simp
    then show ?thesis
      unfolding st using parseFloat_string_digits [OF _ dg'] ne v
      by (simp only: digits_value_zeros val) simp
  next
    case b
    then have st: "pos_to_string x = take (nat n) ds @ ''.'' @ drop (nat n) ds @ []"
      using k by (simp add: str')
    have n: "nat n < length ds" "0 < nat n" using b len by simp_all
    have ip: "take (nat n) ds \<noteq> []" "list_all is_digit (take (nat n) ds)"
      using n ne dg by (auto simp: list_all_iff dest: in_set_takeD)
    have fp: "drop (nat n) ds \<noteq> []" "list_all is_digit (drop (nat n) ds)"
      using n dg by (auto simp: list_all_iff dest: in_set_dropD)
    have h: "is_digit (hd (take (nat n) ds @ ''.'' @ drop (nat n) ds @ []))"
      using hd n ne by (cases ds) simp_all
    have l: "int (length (drop (nat n) ds)) = k - n" using len b k by simp
    have "scan_unsigned False (take (nat n) ds @ ''.'' @ drop (nat n) ds @ []) =
            Some (round64 False (of_int s * 10 powi (n - k)), [])"
      using scan_unsigned_fraction [OF ip fp, of "[]" "[]" False]
      by (simp only: append_take_drop_id val l scan_exponent_Nil fst_conv snd_conv) simp
    then show ?thesis
      unfolding st using parseFloat_string_digit_first [OF _ h] v by simp
  next
    case c
    define fp where "fp = replicate (nat (- n)) (CHR ''0'') @ ds"
    have st: "pos_to_string x = ''0'' @ ''.'' @ fp @ []"
      using c k by (simp add: str' fp_def)
    have ip: "''0'' \<noteq> []" "list_all is_digit ''0''" using zero by simp_all
    have fpp: "fp \<noteq> []" "list_all is_digit fp"
      using ne dg zero by (auto simp: fp_def list_all_iff)
    have l: "int (length fp) = k - n" using len c k by (simp add: fp_def)
    have dv: "digits_value 10 (''0'' @ fp) = s"
      using digits_value_leading_zeros [of "Suc (nat (- n))" ds] by (simp add: fp_def val)
    have "scan_unsigned False (''0'' @ ''.'' @ fp @ []) =
            Some (round64 False (of_int s * 10 powi (n - k)), [])"
      using scan_unsigned_fraction [OF ip fpp, of "[]" "[]" False]
      by (simp only: dv l scan_exponent_Nil fst_conv snd_conv) simp
    moreover have "is_digit (hd (''0'' @ ''.'' @ fp @ []))" using zero by simp
    ultimately show ?thesis
      unfolding st using parseFloat_string_digit_first [of "''0'' @ ''.'' @ fp @ []"] v by simp
  next
    case d1
    then have st: "pos_to_string x = ds @ ''e'' @ es"
      by (auto simp: str' es_def)
    have "scan_unsigned False (ds @ ''e'' @ es) =
            Some (round64 False (of_int s * 10 powi (n - k)), [])"
      using scan_unsigned_integer [OF ne dg, of "''e'' @ es" es False] d1(1)
      by (simp only: ex val fst_conv snd_conv) simp
    moreover have "is_digit (hd (ds @ ''e'' @ es))" using hd ne by simp
    ultimately show ?thesis
      unfolding st using parseFloat_string_digit_first [of "ds @ ''e'' @ es"] v ne by simp
  next
    case d2
    then have st: "pos_to_string x = take 1 ds @ ''.'' @ drop 1 ds @ ''e'' @ es"
      using k by (auto simp: str' es_def)
    have k2: "2 \<le> k" using d2 k by simp
    have ip: "take 1 ds \<noteq> []" "list_all is_digit (take 1 ds)"
      using ne dg by (auto simp: list_all_iff dest: in_set_takeD)
    have fp: "drop 1 ds \<noteq> []" "list_all is_digit (drop 1 ds)"
      using len k2 dg by (auto simp: list_all_iff dest: in_set_dropD)
    have l: "int (length (drop 1 ds)) = k - 1" using len k by simp
    have "scan_unsigned False (take 1 ds @ ''.'' @ drop 1 ds @ ''e'' @ es) =
            Some (round64 False (of_int s * 10 powi (n - k)), [])"
      using scan_unsigned_fraction [OF ip fp, of "''e'' @ es" es False]
      by (simp only: append_take_drop_id ex val l fst_conv snd_conv) simp
    moreover have "is_digit (hd (take 1 ds @ ''.'' @ drop 1 ds @ ''e'' @ es))"
      using hd ne by (cases ds) simp_all
    ultimately show ?thesis
      unfolding st
      using parseFloat_string_digit_first [of "take 1 ds @ ''.'' @ drop 1 ds @ ''e'' @ es"] v ip
      by simp
  qed
qed

subsection \<open>The whole months\<close>

lemma round64_cases:
  assumes "0 < v"
  obtains "round64 s v = Infinity s"
  | e n where "- 1022 \<le> e" and "e = max (ilog 2 v) (- 1022)"
      and "n = round_half_even (v / 2 powi (e - 52))"
      and "round64 s v = Fin s (of_int n * 2 powi (e - 52))"
  using assms unfolding round64_unfold [OF assms] Let_def
  by (metis max.cobounded2)

lemma round64_le_int:
  assumes v: "0 < v" "v \<le> of_int m" and m: "m < 2 ^ 53"
      and r: "round64 False v = Fin False y"
  shows "y \<le> of_int m"
proof -
  from v(1) r obtain e n where e: "- 1022 \<le> e" "e = max (ilog 2 v) (- 1022)"
    and n: "n = round_half_even (v / 2 powi (e - 52))"
    and y: "y = of_int n * 2 powi (e - 52)"
    by (cases rule: round64_cases [of v False]) auto
  define u :: rat where "u = 2 powi (e - 52)"
  have u: "0 < u" by (simp add: u_def zero_less_power_int)
  from ilog_bounds [of 2 v] v(1) have "2 powi (ilog 2 v) \<le> v" by simp
  also have "v \<le> of_int m" by (rule v(2))
  also have "(of_int m :: rat) < of_int (2 ^ 53)" using m by (simp only: of_int_less_iff)
  finally have "(2::rat) powi (ilog 2 v) < 2 powi 53" by simp
  then have "ilog 2 v < 53"
    by (metis less_le_not_le linorder_not_less one_le_numeral power_int_increasing)
  with e(2) have e52: "e \<le> 52" by simp
  define M where "M = m * 2 ^ nat (52 - e)"
  have ui: "u = 1 / 2 ^ nat (52 - e)"
    using e52 by (simp add: u_def power_int_def power_one_over inverse_eq_divide)
  have Mu: "of_int M * u = of_int m" by (simp add: M_def ui)
  have "v / u \<le> of_int M" using v(2) by (simp add: M_def ui)
  then have "n \<le> M" unfolding n u_def [symmetric] by (rule rhe_le)
  then have "(of_int n :: rat) \<le> of_int M" by (simp only: of_int_le_iff)
  then have "of_int n * u \<le> of_int M * u" using u by (simp only: mult_le_cancel_right) simp
  then show ?thesis by (simp add: y u_def [symmetric] Mu)
qed

lemma round64_ge_int:
  assumes v: "of_int m \<le> v" and m: "0 < m" "m < 2 ^ 53"
      and r: "round64 False v = Fin False y"
  shows "of_int m \<le> y"
proof -
  have v0: "0 < v" using v m(1) by (meson less_le_trans of_int_0_less_iff)
  from v0 r obtain e n where e: "- 1022 \<le> e" "e = max (ilog 2 v) (- 1022)"
    and n: "n = round_half_even (v / 2 powi (e - 52))"
    and y: "y = of_int n * 2 powi (e - 52)"
    by (cases rule: round64_cases [of v False]) auto
  define u :: rat where "u = 2 powi (e - 52)"
  have u: "0 < u" by (simp add: u_def zero_less_power_int)
  show ?thesis
  proof (cases "e \<le> 52")
    case True
    define M where "M = m * 2 ^ nat (52 - e)"
    have ui: "u = 1 / 2 ^ nat (52 - e)"
      using True by (simp add: u_def power_int_def power_one_over inverse_eq_divide)
    have Mu: "of_int M * u = of_int m" by (simp add: M_def ui)
    have "of_int M \<le> v / u" using v by (simp add: M_def ui)
    then have "M \<le> n" unfolding n u_def [symmetric] by (rule rhe_ge)
    then have "(of_int M :: rat) \<le> of_int n" by (simp only: of_int_le_iff)
    then have "of_int M * u \<le> of_int n * u" using u by (simp only: mult_le_cancel_right) simp
    then show ?thesis by (simp add: y u_def [symmetric] Mu)
  next
    case False
    then have e53: "53 \<le> e" by simp
    with e(2) have il: "e = ilog 2 v" by (simp add: max_def split: if_splits)
    from ilog_bounds [of 2 v] v0 have "2 powi e \<le> v" by (simp add: il)
    then have "2 ^ 52 * u \<le> v" by (simp add: powi_2_shift(2) [of e] u_def)
    then have "of_int (2 ^ 52) \<le> v / u" using u by (simp add: field_simps)
    then have "2 ^ 52 \<le> n" unfolding n u_def [symmetric] by (rule rhe_ge)
    then have "(of_int (2 ^ 52) :: rat) \<le> of_int n" by (simp only: of_int_le_iff)
    then have "of_int (2 ^ 52) * u \<le> of_int n * u"
      using u by (simp only: mult_le_cancel_right) simp
    then have "2 powi e \<le> y" by (simp add: y u_def [symmetric] powi_2_shift(2) [of e])
    moreover have "(2::rat) powi 53 \<le> 2 powi e" using e53 by (intro power_int_increasing) simp_all
    moreover have "(of_int m :: rat) < of_int (2 ^ 53)" using m(2) by (simp only: of_int_less_iff)
    ultimately show ?thesis by simp
  qed
qed

lemma parseInt_string_prefix:
  assumes ne: "ip \<noteq> []" and dg: "list_all is_digit ip"
  shows "parseInt_string (ip @ ''.'' @ r) 10 = round64 False (of_int (digits_value 10 ip))"
proof -
  obtain c t where ip: "ip = c # t" using ne by (cases ip) auto
  with dg have "is_digit c" by simp
  note c = digit_char_facts [OF this]
  have dw: "dropWhile is_ws (ip @ ''.'' @ r) = ip @ ''.'' @ r" using c by (simp add: ip)
  have sign: "(case ip @ ''.'' @ r of [] \<Rightarrow> (False, ip @ ''.'' @ r)
               | c # r' \<Rightarrow> if c = CHR ''-'' then (True, r')
                          else if c = CHR ''+'' then (False, r') else (False, ip @ ''.'' @ r))
              = (False, ip @ ''.'' @ r)"
    using c by (simp add: ip)
  have ds: "\<And>x. x \<in> set ip \<Longrightarrow> is_digit x" using dg by (simp add: list_all_iff)
  have "takeWhile is_digit (ip @ ''.'' @ r) = ip"
    using ds not_digit(1) by (auto simp: takeWhile_append2)
  then have tw: "takeWhile (\<lambda>c. radix_digit 10 c \<noteq> None) (ip @ ''.'' @ r) = ip"
    by (simp add: is_digit_def [abs_def])
  then have tw': "takeWhile (\<lambda>c. \<exists>y. radix_digit 10 c = Some y) (ip @ ''.'' @ r) = ip" by simp
  show ?thesis
    unfolding parseInt_string_def dw sign Let_def prod.case using ne tw' by simp
qed

lemma parseInt_pos_to_string:
  assumes x: "1 \<le> x" "x \<le> 60" and d: "round64 False x = Fin False x"
  shows "parseInt_string (pos_to_string x) 10 = Fin False (of_int \<lfloor>x\<rfloor>)"
proof (cases "of_int \<lfloor>x\<rfloor> = x")
  case True
  define j where "j = \<lfloor>x\<rfloor>"
  have xj: "x = of_int j" unfolding j_def using True by (rule sym)
  from x have "(of_int 1 :: rat) \<le> of_int j" "(of_int j :: rat) \<le> of_int 60"
    unfolding xj by simp_all
  then have "1 \<le> j" "j \<le> 60" by (simp_all only: of_int_le_iff)
  then have j: "0 < j" "j < 10 ^ 15" by simp_all
  from whole_number_roundtrip(2) [OF j]
  show ?thesis using j(1) by (simp add: parseInt_def xj)
next
  case False
  define j where "j = \<lfloor>x\<rfloor>"
  have j1: "of_int j < x" unfolding j_def using False by (metis of_int_floor_le order_less_le)
  have j2: "x < of_int (j + 1)" unfolding j_def by linarith
  have "1 \<le> j" using x(1) unfolding j_def by (simp add: le_floor_iff)
  moreover have "j < 60"
  proof -
    have "(of_int j :: rat) < of_int 60" using j1 x(2) by simp
    then show ?thesis by (simp only: of_int_less_iff)
  qed
  ultimately have jr: "1 \<le> j" "j + 1 \<le> 60" by simp_all
  have x0: "0 < x" using x by simp
  from x0 d obtain s k n where k: "1 \<le> k" "k \<le> 17"
    and s: "10 ^ (nat k - 1) \<le> s" "s < 10 ^ nat k"
    and v: "round64 False (of_int s * 10 powi (n - k)) = Fin False x"
    and str: "pos_to_string x =
           (if k \<le> n \<and> n \<le> 21 then dec s @ replicate (nat (n - k)) (CHR ''0'')
            else if 0 < n \<and> n \<le> 21 then take (nat n) (dec s) @ ''.'' @ drop (nat n) (dec s)
            else if - 6 < n \<and> n \<le> 0 then ''0.'' @ replicate (nat (- n)) (CHR ''0'') @ dec s
            else if k = 1
                 then dec s @ ''e'' @ (if n - 1 < 0 then ''-'' else ''+'') @ dec \<bar>n - 1\<bar>
                 else take 1 (dec s) @ ''.'' @ drop 1 (dec s) @ ''e''
                      @ (if n - 1 < 0 then ''-'' else ''+'') @ dec \<bar>n - 1\<bar>)"
    by (rule pos_to_string_cases)
  define w :: rat where "w = of_int s * 10 powi (n - k)"
  have "(0::int) < 10 ^ (nat k - 1)" by simp
  with s(1) have s0: "0 < s" by linarith
  have w0: "0 < w" using s0 by (simp add: w_def zero_less_power_int)
  have wlo: "of_int j \<le> w"
  proof (rule ccontr)
    assume "\<not> of_int j \<le> w"
    then have "w \<le> of_int j" by simp
    from round64_le_int [OF w0 this _ v [folded w_def]] jr have "x \<le> of_int j" by simp
    with j1 show False by simp
  qed
  have whi: "w < of_int (j + 1)"
  proof (rule ccontr)
    assume "\<not> w < of_int (j + 1)"
    then have "of_int (j + 1) \<le> w" by simp
    from round64_ge_int [OF this _ _ v [folded w_def]] jr have "of_int (j + 1) \<le> x" by simp
    with j2 show False by simp
  qed
  have kk: "nat k = Suc (nat k - 1)" using k by simp
  have p1: "(10::rat) powi (n - 1) = of_int (10 ^ (nat k - 1)) * 10 powi (n - k)"
    using power_int_add [of "10::rat" "k - 1" "n - k"] k by (simp add: power_int_def nat_diff_distrib)
  have p2: "(10::rat) powi n = of_int (10 ^ nat k) * 10 powi (n - k)"
    using power_int_add [of "10::rat" k "n - k"] k by (simp add: power_int_def)
  have wl: "10 powi (n - 1) \<le> w"
    unfolding p1 w_def using s(1) by (simp add: zero_less_power_int)
  have wh: "w < 10 powi n"
    unfolding p2 w_def using s(2) by (simp add: zero_less_power_int del: of_int_power)
  have n1: "1 \<le> n"
  proof (rule ccontr)
    assume "\<not> 1 \<le> n"
    then have "n \<le> 0" by simp
    then have "(10::rat) powi n \<le> 10 powi 0" by (intro power_int_increasing) simp_all
    with wh have "w < 1" by simp
    moreover have "(1::rat) \<le> of_int j" using jr by simp
    ultimately show False using wlo by linarith
  qed
  have n2: "n \<le> 2"
  proof (rule ccontr)
    assume "\<not> n \<le> 2"
    then have "2 \<le> n - 1" by simp
    then have "(10::rat) powi 2 \<le> 10 powi (n - 1)" by (intro power_int_increasing) simp_all
    with wl have "100 \<le> w" by simp
    moreover have "(of_int (j + 1) :: rat) \<le> of_int 60" using jr by (simp only: of_int_le_iff)
    ultimately show False using whi by simp
  qed
  have nk: "n < k"
  proof (rule ccontr)
    assume "\<not> n < k"
    then have "k \<le> n" by simp
    then have "(10::rat) powi (n - k) = of_int (10 ^ nat (n - k))" by (simp add: power_int_def)
    then have wi: "w = of_int (s * 10 ^ nat (n - k))" by (simp add: w_def)
    from wlo whi have "j \<le> s * 10 ^ nat (n - k)" "s * 10 ^ nat (n - k) < j + 1"
      unfolding wi by (simp_all only: of_int_le_iff of_int_less_iff)
    then have "s * 10 ^ nat (n - k) = j" by simp
    with wi have wj: "w = of_int j" by simp
    have "j < 2 ^ 53" using jr by simp
    from round64_int [of j False] jr this v [folded w_def] have "x = of_int j" by (simp add: wj)
    with j1 show False by simp
  qed
  define ds where "ds = dec s"
  from s(2) have "s < 10 ^ Suc (nat k - 1)" using kk by simp
  from dec_length [OF s(1) this] have len: "length ds = nat k" using k by (simp add: ds_def)
  have dg: "list_all is_digit ds" and ne: "ds \<noteq> []" using dec_digits [of s] by (simp_all add: ds_def)
  have st: "pos_to_string x = take (nat n) ds @ ''.'' @ drop (nat n) ds"
    using nk n1 n2 by (simp add: str ds_def)
  have nl: "nat n \<le> length ds" "0 < nat n" using nk n1 len by simp_all
  have ip: "take (nat n) ds \<noteq> []" "list_all is_digit (take (nat n) ds)"
    using nl ne dg by (auto simp: list_all_iff dest: in_set_takeD)
  have "digits_value 10 (take (nat n) ds) = s div 10 ^ (length ds - nat n)"
    unfolding ds_def using digits_value_take_dec [of s "nat n"] s0 nl by (simp add: ds_def)
  also have "length ds - nat n = nat (k - n)" using len nk n1 by simp
  finally have dv: "digits_value 10 (take (nat n) ds) = s div 10 ^ nat (k - n)" .
  have "(10::rat) powi (n - k) = 1 / of_int (10 ^ nat (k - n))"
    using nk by (simp add: power_int_def power_one_over inverse_eq_divide)
  then have "w = of_int s / of_int (10 ^ nat (k - n))" by (simp add: w_def)
  then have "\<lfloor>w\<rfloor> = s div 10 ^ nat (k - n)" by (simp only: floor_divide_of_int_eq)
  moreover have "\<lfloor>w\<rfloor> = j" using wlo whi by (simp add: floor_unique)
  ultimately have "digits_value 10 (take (nat n) ds) = j" using dv by simp
  moreover have "round64 False (of_int j) = Fin False (of_int j)"
    using round64_int [of j False] jr by simp
  ultimately show ?thesis
    unfolding st using parseInt_string_prefix [OF ip] by (simp add: j_def)
qed

section \<open>Requests of JSON numbers\<close>

text \<open>
  A field that is a JSON number and passes its presence and range check is a positive
  double, which the calculation reads back as it is; the months, a double between 1 and
  60, are read as their whole part. So on a validated request of JSON numbers the
  calculation computes on the numbers of the request, the months cut to whole months; in
  particular the monthly cost is positive.
\<close>

lemma json_number_cases:
  assumes "json_number v" and "ToBoolean v" and "\<not> js_lt v (Fin False 0)"
  obtains q where "v = JNum (Fin False q)" and "0 < q" and "round64 False q = Fin False q"
proof -
  from assms(1) obtain s q where v: "v = JNum (Fin s q)" and q: "0 \<le> q"
    and d: "round64 s q = Fin s q"
    by (auto simp: json_number_def split: jsval.splits jsnum.splits)
  from assms(2) have "q \<noteq> 0" by (simp add: v)
  with q have q0: "0 < q" by simp
  from assms(3) q0 have "\<not> s" by (auto simp: v js_lt_def)
  with v q0 d that show ?thesis by simp
qed

lemma json_number_parseFloat:
  assumes "json_number v" and "ToBoolean v" and "\<not> js_lt v (Fin False 0)"
  shows "parseFloat v = ToNumber v"
proof -
  from assms obtain q where v: "v = JNum (Fin False q)" and q: "0 < q"
    and d: "round64 False q = Fin False q"
    by (rule json_number_cases)
  from parseFloat_pos_to_string [OF q d] q show ?thesis by (simp add: v parseFloat_def)
qed

lemma json_number_parseInt:
  assumes "json_number v" and "ToBoolean v"
      and "\<not> js_lt v (Fin False 1)" and "\<not> js_gt v (Fin False 60)"
  shows "parseInt v 10 = Math_floor (ToNumber v)"
proof -
  from assms(1) obtain s q where v: "v = JNum (Fin s q)" and q: "0 \<le> q"
    and d: "round64 s q = Fin s q"
    by (auto simp: json_number_def split: jsval.splits jsnum.splits)
  from assms(3) q have s: "\<not> s" and q1: "1 \<le> q" by (auto simp: v js_lt_def split: if_splits)
  from assms(4) s have q2: "q \<le> 60" by (simp add: v js_gt_def num_gt_def)
  from d s have d': "round64 False q = Fin False q" by simp
  from parseInt_pos_to_string [OF q1 q2 d'] q1 s show ?thesis by (simp add: v parseInt_def)
qed

lemma json_numbers_read:
  assumes ok: "post_validate req = Response 200 (ResultBody r)"
      and js: "json_numbers req"
  shows "reads_validated_numbers req"
proof -
  note c = post_validate_200_checks [OF ok]
  have le: "\<And>v. \<not> js_le v (Fin False 0) \<Longrightarrow> \<not> js_lt v (Fin False 0)"
    by (auto simp: js_le_def js_lt_def num_le_def elim: num_lt.elims)
  from c [of MovingAndSetupCost] js
  have 1: "parseFloat (movingAndSetupCost req) = ToNumber (movingAndSetupCost req)"
    by (simp add: json_numbers_def json_number_parseFloat)
  from c [of MonthlyLivingCost] js
  have 2: "parseFloat (monthlyLivingCost req) = ToNumber (monthlyLivingCost req)"
    by (simp add: json_numbers_def json_number_parseFloat)
  from c [of Rent] js
  have 3: "parseFloat (rent req) = ToNumber (rent req)"
    by (simp add: json_numbers_def json_number_parseFloat le)
  from c [of SecurityDeposit] js
  have 4: "parseFloat (securityDeposit req) = ToNumber (securityDeposit req)"
    by (simp add: json_numbers_def json_number_parseFloat)
  from c [of TotalMonthlyIncome] js
  have 5: "parseFloat (totalMonthlyIncome req) = ToNumber (totalMonthlyIncome req)"
    by (simp add: json_numbers_def json_number_parseFloat le)
  from c [of TotalSavings] js
  have 6: "parseFloat (totalSavings req) = ToNumber (totalSavings req)"
    by (simp add: json_numbers_def json_number_parseFloat)
  from c [of MonthsToEvaluate] js
  have 7: "parseInt (monthsToEvaluate req) 10 = Math_floor (ToNumber (monthsToEvaluate req))"
    by (simp add: json_numbers_def json_number_parseInt)
  from 1 2 3 4 5 6 7 show ?thesis by (simp add: reads_validated_numbers_def)
qed

lemma double_ge_min:
  assumes x: "0 < x" and d: "round64 False x = Fin False x"
  shows "2 powi (- 1074) \<le> x"
proof -
  from x d obtain e n where e: "- 1022 \<le> e" and xeq: "x = of_int n * 2 powi (e - 52)"
    and n: "0 < n"
    by (rule double_decompose)
  have "(2::rat) powi (- 1074) \<le> 2 powi (e - 52)" using e by (intro power_int_increasing) simp_all
  also have "\<dots> = of_int 1 * 2 powi (e - 52)" by simp
  also have "\<dots> \<le> of_int n * 2 powi (e - 52)"
    using n by (intro mult_right_mono) (simp_all add: zero_less_power_int less_imp_le)
  finally show ?thesis by (simp add: xeq)
qed

lemma round64_positive:
  assumes q: "2 powi (- 1074) \<le> q"
  shows "num_lt (Fin False 0) (round64 False q)"
proof -
  have q0: "0 < q" using q powi_pos(1) [of "- 1074"] by linarith
  show ?thesis
  proof (cases rule: round64_cases [OF q0, of False])
    case 1
    then show ?thesis by simp
  next
    case (2 e n)
    define u :: rat where "u = 2 powi (e - 52)"
    have u: "0 < u" by (simp add: u_def zero_less_power_int)
    have "u \<le> q"
    proof (cases "e = - 1022")
      case True
      with q show ?thesis by (simp add: u_def)
    next
      case False
      with 2(2) have "e = ilog 2 q" by (simp add: max_def split: if_splits)
      with ilog_bounds [of 2 q] q0 have "2 powi e \<le> q" by simp
      moreover have "(2::rat) powi (e - 52) \<le> 2 powi e" by (intro power_int_increasing) simp_all
      ultimately show ?thesis by (simp add: u_def)
    qed
    then have "of_int 1 \<le> q / u" using u by (simp add: field_simps)
    then have "1 \<le> n" unfolding 2(3) u_def [symmetric] by (rule rhe_ge)
    then have "0 < (of_int n :: rat)" by simp
    then have "0 < of_int n * u" using u by simp
    then show ?thesis by (simp add: 2(4) u_def)
  qed
qed

lemma json_numbers_monthly_cost_positive:
  assumes ok: "post_validate req = Response 200 (ResultBody r)"
      and js: "json_numbers req"
  shows "num_gt (totalMonthlyCost r) (Fin False 0)"
proof -
  note c = post_validate_200_checks [OF ok]
  have le: "\<And>v. \<not> js_le v (Fin False 0) \<Longrightarrow> \<not> js_lt v (Fin False 0)"
    by (auto simp: js_le_def js_lt_def num_le_def elim: num_lt.elims)
  from c [of MonthlyLivingCost] js obtain a
    where a: "monthlyLivingCost req = JNum (Fin False a)" "0 < a"
      "round64 False a = Fin False a"
    by (auto simp: json_numbers_def elim: json_number_cases)
  from c [of Rent] js le obtain b
    where b: "rent req = JNum (Fin False b)" "0 < b"
    by (auto simp: json_numbers_def elim: json_number_cases)
  from double_ge_min [OF a(2,3)] b(2) have "2 powi (- 1074) \<le> a + b" by linarith
  from round64_positive [OF this] a(2) b(2)
  have "num_lt (Fin False 0) (num_add (Fin False a) (Fin False b))"
    by (simp add: Let_def)
  then show ?thesis
    using validated_result(1) [OF ok json_numbers_read [OF ok js]]
    by (simp add: num_gt_def spec_totalMonthlyCost_def whole_months_def a(1) b(1))
qed

section \<open>The claims\<close>

subsection \<open>C1: when the request can be afforded\<close>

text \<open>
  The claim reads the formula on the fields of the request. The handler converts
  \<^verbatim>\<open>monthsToEvaluate\<close> with \<^verbatim>\<open>parseInt(monthsToEvaluate, 10)\<close>, which drops a
  fraction: for a request of one and a half months it answers for one month, and
  \<open>canAfford\<close> is false where the formula on the request's numbers holds.
\<close>

text \<open>
  C1, as amended: for every request to \<^verbatim>\<open>POST /validate\<close> that passes all validation
  checks and whose seven fields are JSON numbers, or other values that the calculation
  reads as the numbers the validation compared, \<open>canAfford\<close> of the 200 response is true
  if and only if \<open>totalSavings + totalMonthlyIncome * m >= initialCosts +
  totalMonthlyCost * m\<close> on the numbers of the request, where \<open>m\<close> is
  \<^verbatim>\<open>monthsToEvaluate\<close> cut to whole months; \<open>initialCosts\<close>, \<open>totalMonthlyCost\<close>
  and the right-hand side, \<open>totalCostOverTime\<close>, are the fields of the response. When
  \<^verbatim>\<open>monthsToEvaluate\<close> is a whole number, this is the formula of the claim as it stands.
\<close>

theorem canAfford_whole_months:
  assumes "post_validate req = Response 200 (ResultBody r)"
      and "json_numbers req \<or> reads_validated_numbers req"
  shows "canAfford r = spec_canAfford (whole_months req)
         \<and> totalCostOverTime r = spec_totalCostOverTime (whole_months req)
         \<and> initialCosts r =
             num_add (ToNumber (movingAndSetupCost req)) (ToNumber (securityDeposit req))
         \<and> totalMonthlyCost r = spec_totalMonthlyCost req
         \<and> (Math_floor (ToNumber (monthsToEvaluate req)) = ToNumber (monthsToEvaluate req)
              \<longrightarrow> canAfford r = spec_canAfford req)"
proof -
  from assms json_numbers_read have "reads_validated_numbers req" by blast
  from validated_result(1,2,3,6) [OF assms(1) this] whole_months_id(1) [of req]
  show ?thesis by (simp add: spec_totalMonthlyCost_def whole_months_def)
qed

theorem canAfford_whole_months_witness:
  "post_validate decimal_amounts = Response 200 (ResultBody decimal_amounts_result)
   \<and> json_numbers decimal_amounts
   \<and> canAfford decimal_amounts_result
   \<and> spec_canAfford (whole_months decimal_amounts)
   \<and> spec_totalCostOverTime (whole_months decimal_amounts)
       = Fin False (405506073076695 / 68719476736)
   \<and> post_validate spec_example = Response 200 (ResultBody spec_example_result)
   \<and> json_numbers spec_example
   \<and> spec_canAfford spec_example
   \<and> post_validate numeric_strings = Response 200 (ResultBody spec_example_result)
   \<and> reads_validated_numbers numeric_strings
   \<and> spec_canAfford (whole_months numeric_strings)"
proof -
  note a = canAfford_whole_months [OF decimal_amounts_eval disjI1 [OF decimal_amounts_json]]
  note b = canAfford_whole_months [OF spec_example_eval disjI1 [OF spec_examples_json(1)]]
  note c = canAfford_whole_months [OF numeric_strings_eval(1) disjI2 [OF numeric_strings_eval(2)]]
  have ca: "canAfford decimal_amounts_result"
    and tc: "totalCostOverTime decimal_amounts_result
               = Fin False (405506073076695 / 68719476736)"
    by (simp_all add: decimal_amounts_result_def)
  have cb: "canAfford spec_example_result" by (simp add: spec_example_result_def)
  from a ca have "spec_canAfford (whole_months decimal_amounts)" by simp
  moreover from a tc
  have "spec_totalCostOverTime (whole_months decimal_amounts)
          = Fin False (405506073076695 / 68719476736)" by simp
  moreover from b spec_examples_json(3)
  have "canAfford spec_example_result = spec_canAfford spec_example" by blast
  with cb have "spec_canAfford spec_example" by simp
  moreover from c cb have "spec_canAfford (whole_months numeric_strings)" by simp
  ultimately show ?thesis
    using decimal_amounts_eval decimal_amounts_json spec_example_eval spec_examples_json(1)
      numeric_strings_eval(1,2) ca
    by simp
qed

lemma months_one_and_a_half_spec:
  "spec_canAfford months_one_and_a_half"
  "spec_totalFundsAvailable months_one_and_a_half = Fin False 31"
  "spec_totalCostOverTime months_one_and_a_half = Fin False 28"
  by code_simp+

theorem canAfford_counterexample:
  "post_validate months_one_and_a_half =
     Response 200 (ResultBody
       \<lparr>initialCosts = Fin False 10, totalMonthlyCost = Fin False 12,
        totalCostOverTime = Fin False 22, affordabilityDuration = Fin False 1,
        canAfford = False, additionalMonthlyIncomeNeeded = JStr ''1.00''\<rparr>)
   \<and> spec_totalFundsAvailable months_one_and_a_half = Fin False 31
   \<and> spec_totalCostOverTime months_one_and_a_half = Fin False 28
   \<and> spec_canAfford months_one_and_a_half"
  using months_one_and_a_half_eval months_one_and_a_half_spec by simp

subsection \<open>C2: the additional monthly income needed\<close>

text \<open>
  The handler divides by the months that \<^verbatim>\<open>parseInt\<close> cut to a whole number, and
  \<^verbatim>\<open>toFixed(2)\<close> writes a value of \<open>10 ^ 21\<close> or more in exponent notation: for a moving
  cost of \<open>10 ^ 22\<close> and one and a half months the field is \<^verbatim>\<open>1e+22\<close>, where the
  formula on the request's numbers gives \<^verbatim>\<open>6.666666666666667e+21\<close>, and neither has
  two decimal digits.
\<close>

text \<open>
  C2, as amended: for every request to \<^verbatim>\<open>POST /validate\<close> that passes all validation
  checks and whose seven fields are JSON numbers, or other values that the calculation
  reads as the numbers the validation compared, \<open>additionalMonthlyIncomeNeeded\<close> is the
  number 0 when \<open>canAfford\<close> is true (which is when \<open>totalSavings + totalMonthlyIncome * m
  >= totalCostOverTime\<close>), and otherwise \<^verbatim>\<open>toFixed(2)\<close> of \<open>(totalCostOverTime -
  totalSavings) / m - totalMonthlyIncome\<close> on the numbers of the request, where \<open>m\<close> is
  \<^verbatim>\<open>monthsToEvaluate\<close> cut to whole months; that string has exactly two decimal digits
  whenever the value is finite and below \<open>10 ^ 21\<close> in magnitude. When
  \<^verbatim>\<open>monthsToEvaluate\<close> is a whole number the value is that of the claim's formula. The
  example of the specification with an income of 500 yields \<^verbatim>\<open>783.33\<close>.
\<close>

theorem additionalMonthlyIncomeNeeded_whole_months:
  assumes "post_validate req = Response 200 (ResultBody r)"
      and "json_numbers req \<or> reads_validated_numbers req"
  shows "canAfford r = spec_canAfford (whole_months req)
         \<and> (canAfford r \<longrightarrow> additionalMonthlyIncomeNeeded r = JNum (Fin False 0))
         \<and> (\<not> canAfford r \<longrightarrow>
              (\<exists>str. toFixed (spec_shortfall (whole_months req)) 2 = Inr str
                 \<and> additionalMonthlyIncomeNeeded r = JStr str
                 \<and> (\<forall>s q. spec_shortfall (whole_months req) = Fin s q \<and> q < 10 ^ 21
                      \<longrightarrow> two_decimals str)))
         \<and> (Math_floor (ToNumber (monthsToEvaluate req)) = ToNumber (monthsToEvaluate req)
              \<longrightarrow> spec_shortfall (whole_months req) = spec_shortfall req)"
proof -
  from assms json_numbers_read have "reads_validated_numbers req" by blast
  from validated_result(3,5) [OF assms(1) this] whole_months_id(3) [of req]
  show ?thesis by (auto simp: toFixed_2 fixed_notation_two_decimals)
qed

theorem additionalMonthlyIncomeNeeded_whole_months_witness:
  "post_validate spec_example_500 = Response 200 (ResultBody spec_example_500_result)
   \<and> json_numbers spec_example_500
   \<and> \<not> canAfford spec_example_500_result
   \<and> spec_shortfall spec_example_500 = Fin False (3445136433698133 / 4398046511104)
   \<and> toFixed (spec_shortfall spec_example_500) 2 = Inr ''783.33''
   \<and> additionalMonthlyIncomeNeeded spec_example_500_result = JStr ''783.33''
   \<and> two_decimals ''783.33''"
proof -
  note th = additionalMonthlyIncomeNeeded_whole_months
    [OF spec_example_500_eval disjI1 [OF spec_examples_json(2)]]
  have less: "(3445136433698133 / 4398046511104 :: rat) < 10 ^ 21" by simp
  have nc: "\<not> canAfford spec_example_500_result"
    and fld: "additionalMonthlyIncomeNeeded spec_example_500_result = JStr ''783.33''"
    by (simp_all add: spec_example_500_result_def)
  from th spec_examples_json(4)
  have eq: "spec_shortfall (whole_months spec_example_500) = spec_shortfall spec_example_500"
    by blast
  from th nc obtain str
    where a: "toFixed (spec_shortfall (whole_months spec_example_500)) 2 = Inr str"
      and b: "additionalMonthlyIncomeNeeded spec_example_500_result = JStr str"
      and c: "\<forall>s q. spec_shortfall (whole_months spec_example_500) = Fin s q \<and> q < 10 ^ 21
                \<longrightarrow> two_decimals str"
    by blast
  from b fld have str: "str = ''783.33''" by simp
  from c less have "two_decimals str"
    unfolding eq spec_examples_spec by blast
  with a show ?thesis
    unfolding eq str using spec_example_500_eval spec_examples_json(2) nc fld
      spec_examples_spec by simp
qed

lemma huge_moving_cost_spec:
  "\<not> two_decimals ''1e+22''"
  "\<not> spec_canAfford huge_moving_cost"
  "toFixed (spec_shortfall huge_moving_cost) 2 = Inr ''6.666666666666667e+21''"
  by code_simp+

theorem additionalMonthlyIncomeNeeded_counterexample:
  "post_validate huge_moving_cost =
     Response 200 (ResultBody
       \<lparr>initialCosts = Fin False 10000000000000000000000, totalMonthlyCost = Fin False 1700,
        totalCostOverTime = Fin False 10000000000000000000000,
        affordabilityDuration = Fin False 3,
        canAfford = False, additionalMonthlyIncomeNeeded = JStr ''1e+22''\<rparr>)
   \<and> \<not> two_decimals ''1e+22''
   \<and> \<not> spec_canAfford huge_moving_cost
   \<and> toFixed (spec_shortfall huge_moving_cost) 2 = Inr ''6.666666666666667e+21''"
  using huge_moving_cost_eval huge_moving_cost_spec by simp

subsection \<open>C3: the affordability duration\<close>

text \<open>
  The handler multiplies the income by the months that \<^verbatim>\<open>parseInt\<close> cut to a whole
  number: for a request of two and a half months it answers 2, where the formula on the
  request's numbers gives 3.
\<close>

text \<open>
  C3, as amended: for every request to \<^verbatim>\<open>POST /validate\<close> that passes all validation
  checks and whose seven fields are JSON numbers, or other values that the calculation
  reads as the numbers the validation compared, \<open>affordabilityDuration\<close> of the 200
  response is \<open>floor((totalSavings + totalMonthlyIncome * m) / totalMonthlyCost)\<close> on the
  numbers of the request, where \<open>m\<close> is \<^verbatim>\<open>monthsToEvaluate\<close> cut to whole months.
  When \<^verbatim>\<open>monthsToEvaluate\<close> is a whole number, this is the formula of the claim as it
  stands. The example of the specification yields 17.
\<close>

theorem affordabilityDuration_whole_months:
  assumes "post_validate req = Response 200 (ResultBody r)"
      and "json_numbers req \<or> reads_validated_numbers req"
  shows "affordabilityDuration r = spec_affordabilityDuration (whole_months req)
         \<and> (Math_floor (ToNumber (monthsToEvaluate req)) = ToNumber (monthsToEvaluate req)
              \<longrightarrow> affordabilityDuration r = spec_affordabilityDuration req)"
proof -
  from assms json_numbers_read have "reads_validated_numbers req" by blast
  from validated_result(4) [OF assms(1) this] whole_months_id(2) [of req]
  show ?thesis by simp
qed

theorem affordabilityDuration_whole_months_witness:
  "post_validate spec_example = Response 200 (ResultBody spec_example_result)
   \<and> json_numbers spec_example
   \<and> affordabilityDuration spec_example_result = Fin False 17
   \<and> spec_affordabilityDuration spec_example = Fin False 17
   \<and> post_validate decimal_amounts = Response 200 (ResultBody decimal_amounts_result)
   \<and> json_numbers decimal_amounts
   \<and> spec_affordabilityDuration (whole_months decimal_amounts) = Fin False 7"
proof -
  note a = affordabilityDuration_whole_months
    [OF spec_example_eval disjI1 [OF spec_examples_json(1)]]
  note b = affordabilityDuration_whole_months
    [OF decimal_amounts_eval disjI1 [OF decimal_amounts_json]]
  have da: "affordabilityDuration spec_example_result = Fin False 17"
    by (simp add: spec_example_result_def)
  have db: "affordabilityDuration decimal_amounts_result = Fin False 7"
    by (simp add: decimal_amounts_result_def)
  from a spec_examples_json(3)
  have "affordabilityDuration spec_example_result = spec_affordabilityDuration spec_example"
    by blast
  with da have "spec_affordabilityDuration spec_example = Fin False 17" by simp
  moreover from b db
  have "spec_affordabilityDuration (whole_months decimal_amounts) = Fin False 7" by simp
  ultimately show ?thesis
    using spec_example_eval spec_examples_json(1) decimal_amounts_eval decimal_amounts_json da
    by simp
qed

lemma months_two_and_a_half_spec:
  "spec_affordabilityDuration months_two_and_a_half = Fin False 3"
  by code_simp

theorem affordabilityDuration_counterexample:
  "post_validate months_two_and_a_half =
     Response 200 (ResultBody
       \<lparr>initialCosts = Fin False 2, totalMonthlyCost = Fin False 10,
        totalCostOverTime = Fin False 22, affordabilityDuration = Fin False 2,
        canAfford = True, additionalMonthlyIncomeNeeded = JNum (Fin False 0)\<rparr>)
   \<and> spec_affordabilityDuration months_two_and_a_half = Fin False 3"
  using months_two_and_a_half_eval months_two_and_a_half_spec by simp

subsection \<open>C4: months outside the range\<close>

text \<open>
  The handler checks \<^verbatim>\<open>movingAndSetupCost\<close>, \<^verbatim>\<open>monthlyLivingCost\<close> and \<^verbatim>\<open>rent\<close>
  before \<^verbatim>\<open>monthsToEvaluate\<close>, and the first failure returns: a request without a
  moving cost and with 100 months is answered with the message of the moving cost.
\<close>

text \<open>
  C4, as amended: for every request to \<^verbatim>\<open>POST /validate\<close> whose \<^verbatim>\<open>monthsToEvaluate\<close>
  is below 1 or above 60, the response is 400; its message is the months-specific one when
  \<^verbatim>\<open>movingAndSetupCost\<close>, \<^verbatim>\<open>monthlyLivingCost\<close> and \<^verbatim>\<open>rent\<close> pass their own
  presence and range checks, and otherwise the message of the first of these three that
  fails; the three fields checked after the months have no effect.
\<close>

theorem months_out_of_range:
  assumes "js_lt (monthsToEvaluate req) (Fin False 1) \<or> js_gt (monthsToEvaluate req) (Fin False 60)"
  shows "post_validate req =
           Response 400 (ErrorBody
             (if range_fails MovingAndSetupCost (movingAndSetupCost req)
              then ''Invalid moving and setup costs provided.''
              else if range_fails MonthlyLivingCost (monthlyLivingCost req)
              then ''Invalid monthly living costs provided.''
              else if range_fails Rent (rent req)
              then ''Invalid rent provided.''
              else ''Months To Evaluate must be between 1 and 60.''))"
  using assms by (auto simp: post_validate_def)

lemma months_100_facts:
  "js_gt (monthsToEvaluate months_100) (Fin False 60)"
  "\<not> range_fails MovingAndSetupCost (movingAndSetupCost months_100)"
  "\<not> range_fails MonthlyLivingCost (monthlyLivingCost months_100)"
  "\<not> range_fails Rent (rent months_100)"
  "range_fails SecurityDeposit (securityDeposit months_100)"
  "\<not> isNumeric (totalMonthlyIncome months_100)"
  "range_fails TotalSavings (totalSavings months_100)"
  by code_simp+

lemma months_100_no_rent_facts:
  "js_gt (monthsToEvaluate months_100_no_rent) (Fin False 60)"
  "\<not> range_fails MovingAndSetupCost (movingAndSetupCost months_100_no_rent)"
  "\<not> range_fails MonthlyLivingCost (monthlyLivingCost months_100_no_rent)"
  "range_fails Rent (rent months_100_no_rent)"
  by code_simp+

theorem months_out_of_range_witness:
  "post_validate months_100 =
     Response 400 (ErrorBody ''Months To Evaluate must be between 1 and 60.'')
   \<and> range_fails SecurityDeposit (securityDeposit months_100)
   \<and> range_fails TotalSavings (totalSavings months_100)
   \<and> post_validate months_100_no_rent = Response 400 (ErrorBody ''Invalid rent provided.'')"
proof -
  have a: "js_lt (monthsToEvaluate months_100) (Fin False 1)
             \<or> js_gt (monthsToEvaluate months_100) (Fin False 60)"
    using months_100_facts(1) by simp
  have b: "js_lt (monthsToEvaluate months_100_no_rent) (Fin False 1)
             \<or> js_gt (monthsToEvaluate months_100_no_rent) (Fin False 60)"
    using months_100_no_rent_facts(1) by simp
  from months_out_of_range [OF a] months_100_facts(2-4)
  have "post_validate months_100 =
     Response 400 (ErrorBody ''Months To Evaluate must be between 1 and 60.'')"
    by simp
  moreover from months_out_of_range [OF b] months_100_no_rent_facts(2-4)
  have "post_validate months_100_no_rent = Response 400 (ErrorBody ''Invalid rent provided.'')"
    by simp
  ultimately show ?thesis using months_100_facts(5,7) by simp
qed

lemma no_moving_cost_100_months_eval:
  "js_gt (monthsToEvaluate no_moving_cost_100_months) (Fin False 60)"
  "post_validate no_moving_cost_100_months =
     Response 400 (ErrorBody ''Invalid moving and setup costs provided.'')"
  by code_simp+

theorem months_out_of_range_counterexample:
  "js_gt (monthsToEvaluate no_moving_cost_100_months) (Fin False 60)
   \<and> post_validate no_moving_cost_100_months =
       Response 400 (ErrorBody ''Invalid moving and setup costs provided.'')
   \<and> body (post_validate no_moving_cost_100_months) \<noteq>
       ErrorBody ''Months To Evaluate must be between 1 and 60.''"
  using no_moving_cost_100_months_eval by simp

subsection \<open>C5: a zero is a missing value\<close>

text \<open>
  C5: for each of the seven fields, a request that supplies the number 0 for it (or
  \<^verbatim>\<open>null\<close>, or nothing) and whose other fields pass their presence and range checks is
  answered with status 400 and the message of that field.
\<close>

theorem zero_is_missing:
  assumes others: "\<forall>g. g \<noteq> f \<longrightarrow> \<not> range_fails g (field_value g req)"
      and zero: "field_value f req \<in> {JNum (Fin False 0), JNull, JUndefined}"
  shows "post_validate req = Response 400 (ErrorBody (range_message f))"
proof -
  note o = others [rule_format]
  note os = o [of MovingAndSetupCost] o [of MonthlyLivingCost] o [of Rent]
    o [of MonthsToEvaluate] o [of SecurityDeposit] o [of TotalMonthlyIncome] o [of TotalSavings]
  from zero have falsy: "\<not> ToBoolean (field_value f req)" by auto
  show ?thesis
    using os falsy by (cases f) (simp_all add: post_validate_def)
qed

theorem zero_is_missing_witness:
  "field_value Rent zero_rent = JNum (Fin False 0)
   \<and> post_validate zero_rent = Response 400 (ErrorBody ''Invalid rent provided.'')"
proof -
  have z: "field_value Rent zero_rent = JNum (Fin False 0)" by code_simp
  have others: "\<forall>g. g \<noteq> Rent \<longrightarrow> \<not> range_fails g (field_value g zero_rent)"
  proof (intro allI impI)
    fix g :: field
    assume "g \<noteq> Rent"
    then show "\<not> range_fails g (field_value g zero_rent)"
      by (cases g) (simp_all, code_simp+)
  qed
  from z have "field_value Rent zero_rent \<in> {JNum (Fin False 0), JNull, JUndefined}" by simp
  from zero_is_missing [OF others this] z show ?thesis by simp
qed

subsection \<open>C6: the first failure wins\<close>

text \<open>
  The presence and range checks run in the order the claim gives. The numeric-format
  checks run after all of them, but in the order of the keys of \<^verbatim>\<open>parameters\<close>, where
  \<^verbatim>\<open>monthsToEvaluate\<close> is last: when \<^verbatim>\<open>securityDeposit\<close> and \<^verbatim>\<open>monthsToEvaluate\<close> are
  both the string \<^verbatim>\<open>abc\<close>, the message names the security deposit, not the months.
\<close>

text \<open>
  C6, as amended: the response to an invalid request of \<^verbatim>\<open>POST /validate\<close> carries one
  message: that of the first failing presence or range check in the order
  \<^verbatim>\<open>movingAndSetupCost\<close>, \<^verbatim>\<open>monthlyLivingCost\<close>, \<^verbatim>\<open>rent\<close>, \<^verbatim>\<open>monthsToEvaluate\<close>,
  \<^verbatim>\<open>securityDeposit\<close>, \<^verbatim>\<open>totalMonthlyIncome\<close>, \<^verbatim>\<open>totalSavings\<close>; and, only when all of
  these pass, the label of the first field that is not numeric, followed by
  \<^verbatim>\<open>must be a valid number.\<close>, in the order \<^verbatim>\<open>movingAndSetupCost\<close>,
  \<^verbatim>\<open>monthlyLivingCost\<close>, \<^verbatim>\<open>rent\<close>, \<^verbatim>\<open>securityDeposit\<close>, \<^verbatim>\<open>totalMonthlyIncome\<close>,
  \<^verbatim>\<open>totalSavings\<close>, \<^verbatim>\<open>monthsToEvaluate\<close>. A request with no failure is answered 200.
\<close>

theorem first_failure_wins:
  "(first_failure range_order entries_order req = Some msg
      \<longleftrightarrow> post_validate req = Response 400 (ErrorBody msg))
   \<and> (first_failure range_order entries_order req = None
      \<longleftrightarrow> status (post_validate req) = 200)"
proof -
  obtain r where "calculation req = Inr r" using calculation_returns by blast
  then show ?thesis
    by (cases "first_failure range_order entries_order req")
      (auto simp: post_validate_stages)
qed

lemma two_not_numeric_facts:
  "first_failure range_order entries_order two_not_numeric =
     Some ''Security Deposit must be a valid number.''"
  "first_failure range_order range_order two_not_numeric =
     Some ''Months to Evaluate must be a valid number.''"
  "post_validate two_not_numeric =
     Response 400 (ErrorBody ''Security Deposit must be a valid number.'')"
  by code_simp+

theorem first_failure_wins_witness:
  "first_failure range_order entries_order two_not_numeric =
     Some ''Security Deposit must be a valid number.''
   \<and> post_validate two_not_numeric =
     Response 400 (ErrorBody ''Security Deposit must be a valid number.'')"
  using first_failure_wins [of two_not_numeric "''Security Deposit must be a valid number.''"]
    two_not_numeric_facts(1)
  by simp

theorem first_failure_wins_counterexample:
  "post_validate two_not_numeric =
     Response 400 (ErrorBody ''Security Deposit must be a valid number.'')
   \<and> first_failure range_order range_order two_not_numeric =
     Some ''Months to Evaluate must be a valid number.''"
  using two_not_numeric_facts(2,3) by simp

subsection \<open>C7: feedback that is empty after trimming\<close>

lemma feedback_never_rejected:
  "run_chain feedback_chain text [] = (escape (trim text), [])"
  by (simp add: feedback_chain_def)

lemma trim_blank: "trim '''' = ''''" "trim ''   '' = ''''" "trim ''  Great app!  '' = ''Great app!''"
  by code_simp+

lemma post_feedback_inserted:
  "post_feedback (Inserted i) text rows =
     (Response 201 (RowBody \<lparr>row_id = i, content = escape (trim text)\<rparr>),
      rows @ [\<lparr>row_id = i, content = escape (trim text)\<rparr>],
      [(''Received feedback:'', LogText (escape (trim text))),
       (''Feedback saved successfully:'',
        LogRow \<lparr>row_id = i, content = escape (trim text)\<rparr>)])"
  by (simp add: post_feedback_def feedback_never_rejected Let_def)

text \<open>
  C7: a feedback text that is empty, or empty once trimmed, is to be answered 400 with an
  errors array and not stored. The chain of the route holds the two sanitizers and no
  validator, so it never records an error: for a text of three spaces, and for the empty
  text, the handler inserts a row with the empty content and answers 201.
\<close>

theorem blank_feedback_is_stored:
  "post_feedback (Inserted 1) ''   '' [] =
     (Response 201 (RowBody \<lparr>row_id = 1, content = ''''\<rparr>),
      [\<lparr>row_id = 1, content = ''''\<rparr>],
      [(''Received feedback:'', LogText ''''),
       (''Feedback saved successfully:'', LogRow \<lparr>row_id = 1, content = ''''\<rparr>)])
   \<and> post_feedback (Inserted 1) '''' [] =
     (Response 201 (RowBody \<lparr>row_id = 1, content = ''''\<rparr>),
      [\<lparr>row_id = 1, content = ''''\<rparr>],
      [(''Received feedback:'', LogText ''''),
       (''Feedback saved successfully:'', LogRow \<lparr>row_id = 1, content = ''''\<rparr>)])"
proof -
  have "escape (trim ''   '') = ''''" and "escape (trim '''') = ''''"
    by (simp_all add: trim_blank escape_def)
  then show ?thesis
    using post_feedback_inserted [of 1 "''   ''" "[]"] post_feedback_inserted [of 1 "''''" "[]"]
    by simp
qed

subsection \<open>C8: a storage failure\<close>

text \<open>
  C8: whenever the insert fails, whatever the text, the table and the error of the
  driver, the response is 500 with the body \<^verbatim>\<open>{ error: "Internal server error" }\<close>, the
  table is unchanged, and the error goes to \<^verbatim>\<open>console.error\<close> only.
\<close>

theorem storage_failure_is_opaque:
  "post_feedback (Rejected error) text rows =
     (Response 500 (ErrorBody ''Internal server error''), rows,
      [(''Received feedback:'', LogText (escape (trim text))),
       (''Error saving feedback:'', LogError error)])"
  by (simp add: post_feedback_def feedback_never_rejected)

theorem storage_failure_is_opaque_witness:
  "post_feedback (Rejected ''connection refused'') ''  Great app!  '' [] =
     (Response 500 (ErrorBody ''Internal server error''), [],
      [(''Received feedback:'', LogText ''Great app!''),
       (''Error saving feedback:'', LogError ''connection refused'')])"
  using storage_failure_is_opaque [of "''connection refused''" "''  Great app!  ''" "[]"]
  by (simp add: trim_blank escape_def escape_char_def)

subsection \<open>C9: the monthly cost is not always positive\<close>

lemma hex_strings_facts:
  "ToBoolean (rent hex_strings)"
  "js_gt (rent hex_strings) (Fin False 0)"
  "ToBoolean (monthlyLivingCost hex_strings)"
  "\<not> js_lt (monthlyLivingCost hex_strings) (Fin False 0)"
  "post_validate hex_strings =
     Response 200 (ResultBody
       \<lparr>initialCosts = Fin False 2500, totalMonthlyCost = Fin False 0,
        totalCostOverTime = Fin False 2500, affordabilityDuration = Infinity False,
        canAfford = True, additionalMonthlyIncomeNeeded = JNum (Fin False 0)\<rparr>)"
  by code_simp+

text \<open>
  C9: for every input the validation accepts, \<open>totalMonthlyCost\<close> is to be strictly
  positive, so that no division is by zero. The range checks compare the number a string
  converts to, which for \<^verbatim>\<open>0x10\<close> is 16, while the calculation reads the same string
  with \<^verbatim>\<open>parseFloat\<close>, which stops at the \<^verbatim>\<open>x\<close> and gives 0: the request passes every
  check, \<open>totalMonthlyCost\<close> is 0 and \<open>affordabilityDuration\<close> is infinite. The response
  is still 200, since a division by zero does not throw.
\<close>

theorem hex_strings_zero_monthly_cost:
  "ToBoolean (rent hex_strings) \<and> js_gt (rent hex_strings) (Fin False 0)
   \<and> ToBoolean (monthlyLivingCost hex_strings)
   \<and> \<not> js_lt (monthlyLivingCost hex_strings) (Fin False 0)
   \<and> post_validate hex_strings =
     Response 200 (ResultBody
       \<lparr>initialCosts = Fin False 2500, totalMonthlyCost = Fin False 0,
        totalCostOverTime = Fin False 2500, affordabilityDuration = Infinity False,
        canAfford = True, additionalMonthlyIncomeNeeded = JNum (Fin False 0)\<rparr>)"
  using hex_strings_facts by simp

theorem hex_strings_zero_monthly_cost_witness:
  "status (post_validate hex_strings) = 200
   \<and> (\<exists>r. body (post_validate hex_strings) = ResultBody r
          \<and> totalMonthlyCost r = Fin False 0
          \<and> affordabilityDuration r = Infinity False)"
  using hex_strings_zero_monthly_cost by simp

subsection \<open>C10: the type of the additional monthly income needed\<close>

text \<open>
  The field is a number in the one case and a string in the other, as the claim says; but
  the string is not always a rendering with two decimal digits: \<^verbatim>\<open>toFixed(2)\<close> writes a
  value of \<open>10 ^ 21\<close> or more in exponent notation, and a request with a moving cost of
  \<open>10 ^ 22\<close> and six months is answered with \<^verbatim>\<open>1.6666666666666668e+21\<close>.
\<close>

text \<open>
  C10, as amended: in every 200 response of \<^verbatim>\<open>POST /validate\<close>, the field
  \<open>additionalMonthlyIncomeNeeded\<close> is the JSON number 0 when \<open>canAfford\<close> is true and a
  JSON string when \<open>canAfford\<close> is false. When the seven fields of the request are JSON
  numbers, or other values that the calculation reads as the numbers the validation
  compared, \<open>canAfford\<close> is false exactly when \<open>totalSavings + totalMonthlyIncome * m <
  totalCostOverTime\<close>, for \<open>m\<close> the whole months of the request, and the string is
  then \<^verbatim>\<open>toFixed(2)\<close> of the shortfall \<open>(totalCostOverTime - totalSavings) / m -
  totalMonthlyIncome\<close>: its rendering with two decimal digits whenever the shortfall
  is finite and below \<open>10 ^ 21\<close> in magnitude.
\<close>

theorem additionalMonthlyIncomeNeeded_type:
  assumes "post_validate req = Response 200 (ResultBody r)"
  shows "(canAfford r \<longrightarrow> additionalMonthlyIncomeNeeded r = JNum (Fin False 0))
         \<and> (\<not> canAfford r \<longrightarrow> (\<exists>str. additionalMonthlyIncomeNeeded r = JStr str))
         \<and> (json_numbers req \<or> reads_validated_numbers req \<longrightarrow>
              canAfford r = spec_canAfford (whole_months req)
              \<and> (\<not> canAfford r \<longrightarrow>
                   (\<exists>str. toFixed (spec_shortfall (whole_months req)) 2 = Inr str
                      \<and> additionalMonthlyIncomeNeeded r = JStr str
                      \<and> (\<forall>s q. spec_shortfall (whole_months req) = Fin s q \<and> q < 10 ^ 21
                           \<longrightarrow> two_decimals str))))"
proof -
  have "canAfford r \<longrightarrow> additionalMonthlyIncomeNeeded r = JNum (Fin False 0)"
    and "\<not> canAfford r \<longrightarrow> (\<exists>str. additionalMonthlyIncomeNeeded r = JStr str)"
    using result_fields [OF assms] by (simp_all add: Let_def)
  moreover have "canAfford r = spec_canAfford (whole_months req)
      \<and> (\<not> canAfford r \<longrightarrow>
           (\<exists>str. toFixed (spec_shortfall (whole_months req)) 2 = Inr str
              \<and> additionalMonthlyIncomeNeeded r = JStr str
              \<and> (\<forall>s q. spec_shortfall (whole_months req) = Fin s q \<and> q < 10 ^ 21
                   \<longrightarrow> two_decimals str)))"
    if "json_numbers req \<or> reads_validated_numbers req"
  proof -
    from that assms json_numbers_read have "reads_validated_numbers req" by blast
    from validated_result(3,5) [OF assms this] show ?thesis
      by (auto simp: toFixed_2 fixed_notation_two_decimals)
  qed
  ultimately show ?thesis by blast
qed

theorem additionalMonthlyIncomeNeeded_type_witness:
  "post_validate spec_example = Response 200 (ResultBody spec_example_result)
   \<and> canAfford spec_example_result
   \<and> additionalMonthlyIncomeNeeded spec_example_result = JNum (Fin False 0)
   \<and> post_validate spec_example_500 = Response 200 (ResultBody spec_example_500_result)
   \<and> json_numbers spec_example_500
   \<and> \<not> spec_canAfford (whole_months spec_example_500)
   \<and> (\<exists>str. additionalMonthlyIncomeNeeded spec_example_500_result = JStr str
          \<and> two_decimals str)"
proof -
  note a = additionalMonthlyIncomeNeeded_type [OF spec_example_eval]
  note b = additionalMonthlyIncomeNeeded_type [OF spec_example_500_eval]
  have ca: "canAfford spec_example_result" by (simp add: spec_example_result_def)
  have nb: "\<not> canAfford spec_example_500_result" by (simp add: spec_example_500_result_def)
  have less: "(3445136433698133 / 4398046511104 :: rat) < 10 ^ 21" by simp
  have sf: "spec_shortfall (whole_months spec_example_500)
              = Fin False (3445136433698133 / 4398046511104)"
    using whole_months_id(3) [OF spec_examples_json(4)] spec_examples_spec by simp
  from a ca have "additionalMonthlyIncomeNeeded spec_example_result = JNum (Fin False 0)"
    by blast
  moreover from b spec_examples_json(2) nb
  have "\<not> spec_canAfford (whole_months spec_example_500)" by blast
  moreover from b spec_examples_json(2) nb obtain str
    where "additionalMonthlyIncomeNeeded spec_example_500_result = JStr str"
      and "\<forall>s q. spec_shortfall (whole_months spec_example_500) = Fin s q \<and> q < 10 ^ 21
             \<longrightarrow> two_decimals str"
    by blast
  then have "\<exists>str. additionalMonthlyIncomeNeeded spec_example_500_result = JStr str
                \<and> two_decimals str"
    unfolding sf using less by blast
  ultimately show ?thesis
    using spec_example_eval spec_example_500_eval spec_examples_json(2) ca by simp
qed

lemma huge_moving_cost_six_months_facts:
  "\<not> two_decimals ''1.6666666666666668e+21''"
  "json_numbers huge_moving_cost_six_months"
  by code_simp+

theorem additionalMonthlyIncomeNeeded_type_counterexample:
  "post_validate huge_moving_cost_six_months =
     Response 200 (ResultBody huge_moving_cost_six_months_result)
   \<and> json_numbers huge_moving_cost_six_months
   \<and> \<not> canAfford huge_moving_cost_six_months_result
   \<and> additionalMonthlyIncomeNeeded huge_moving_cost_six_months_result
       = JStr ''1.6666666666666668e+21''
   \<and> \<not> two_decimals ''1.6666666666666668e+21''"
  using huge_moving_cost_six_months_eval huge_moving_cost_six_months_facts
  by (simp add: huge_moving_cost_six_months_result_def)

end
